theory Spec2Isabelle
  imports Complex_Main "HOL-Library.Word" "HOL-Library.Sublist"
begin

section \<open>JavaScript strings\<close>

text \<open>
  A JavaScript string is a sequence of UTF-16 code units; \<open>length\<close>, \<open>slice\<close>, \<open>split\<close>
  and regular expressions without the \<open>u\<close> flag all count and match code units. The model
  keeps that: a string is a list of 16-bit words. \<open>js\<close> turns an Isabelle string literal
  (Latin-1) into such a list and is used to write concrete inputs.
\<close>

type_synonym jschar = "16 word"
type_synonym jsstring = "jschar list"

definition js :: "string \<Rightarrow> jsstring" where
  "js s = map (\<lambda>c. of_nat (of_char c)) s"

definition LF :: jschar where
  "LF = 0x0A"

definition SP :: jschar where
  "SP = 0x20"

text \<open>
  The class \<open>\s\<close> of a regular expression and the characters removed by
  \<open>String.prototype.trim\<close> are the same set: WhiteSpace and LineTerminator of ECMAScript.
\<close>

definition isSpace :: "jschar \<Rightarrow> bool" where
  "isSpace c \<longleftrightarrow> c = 0x09 \<or> c = 0x0A \<or> c = 0x0B \<or> c = 0x0C \<or> c = 0x0D \<or> c = 0x20
     \<or> c = 0xA0 \<or> c = 0x1680 \<or> (0x2000 \<le> c \<and> c \<le> 0x200A)
     \<or> c = 0x2028 \<or> c = 0x2029 \<or> c = 0x202F \<or> c = 0x205F \<or> c = 0x3000 \<or> c = 0xFEFF"

text \<open>The characters the regular expression \<open>.\<close> does not match (LineTerminator).\<close>

definition isLineTerminator :: "jschar \<Rightarrow> bool" where
  "isLineTerminator c \<longleftrightarrow> c = 0x0A \<or> c = 0x0D \<or> c = 0x2028 \<or> c = 0x2029"

text \<open>The class \<open>[.!?]\<close>.\<close>

definition isSentenceEnd :: "jschar \<Rightarrow> bool" where
  "isSentenceEnd c \<longleftrightarrow> c = 0x2E \<or> c = 0x21 \<or> c = 0x3F"

definition trim :: "jsstring \<Rightarrow> jsstring" where
  "trim s = rev (dropWhile isSpace (rev (dropWhile isSpace s)))"


section \<open>text-cleaner.util.ts\<close>

text \<open>
  \<open>text.replace(/\n{3,}/g, '\n\n')\<close>: the scan goes left to right; at a newline the greedy
  quantifier takes the whole run of newlines, and the run is replaced when it has three or
  more of them. A run of one or two newlines matches at none of its positions and is copied.
\<close>

function replaceNewlineRuns :: "jsstring \<Rightarrow> jsstring" where
  "replaceNewlineRuns [] = []"
| "replaceNewlineRuns (c # cs) =
     (if c = LF then
        (let run = c # takeWhile (\<lambda>x. x = LF) cs
         in (if 3 \<le> length run then [LF, LF] else run)
            @ replaceNewlineRuns (dropWhile (\<lambda>x. x = LF) cs))
      else c # replaceNewlineRuns cs)"
  by pat_completeness auto
termination
  by (relation "measure length") (auto simp: less_Suc_eq_le length_dropWhile_le)

definition cleanTextLineBreaks :: "jsstring \<Rightarrow> jsstring" where
  "cleanTextLineBreaks text = (if text = [] then text else replaceNewlineRuns text)"

text \<open>Three consecutive newlines somewhere in the string.\<close>

fun hasTripleNewline :: "jsstring \<Rightarrow> bool" where
  "hasTripleNewline (a # b # c # r) = ((a = LF \<and> b = LF \<and> c = LF) \<or> hasTripleNewline (b # c # r))"
| "hasTripleNewline _ = False"


section \<open>The fallback chunker of documents.service.ts\<close>

subsection \<open>Regular expressions used by the chunker\<close>

text \<open>
  \<open>/\n\s*\n/\<close> anchored at the head of \<open>s\<close>: after the first newline the greedy \<open>\s*\<close>
  takes the whole run of white space and gives characters back until a newline follows, so
  the match ends after the last newline of that run. The result is the length of the match.
\<close>

definition blankLineMatch :: "jsstring \<Rightarrow> nat option" where
  "blankLineMatch s =
     (case s of
        [] \<Rightarrow> None
      | c # cs \<Rightarrow>
          if c = LF then
            (let ws = takeWhile isSpace cs
             in if LF \<in> set ws
                then Some (Suc (length ws - length (takeWhile (\<lambda>x. x \<noteq> LF) (rev ws))))
                else None)
          else None)"

text \<open>
  \<open>text.split(/\n\s*\n/)\<close>: the pieces between the leftmost matches, in order; a match at
  the very end leaves a final empty piece, and the empty string gives one empty piece.
\<close>

function splitBlankLines :: "jsstring \<Rightarrow> jsstring \<Rightarrow> jsstring list" where
  "splitBlankLines acc [] = [acc]"
| "splitBlankLines acc (c # cs) =
     (case blankLineMatch (c # cs) of
        Some n \<Rightarrow> acc # splitBlankLines [] (drop n (c # cs))
      | None \<Rightarrow> splitBlankLines (acc @ [c]) cs)"
  by pat_completeness auto
termination
  by (relation "measure (\<lambda>(acc, s). length s)")
     (auto simp: blankLineMatch_def Let_def split: if_splits)

text \<open>\<open>text.split(/\s+/)\<close>: the pieces between the maximal runs of white space.\<close>

function splitSpaces :: "jsstring \<Rightarrow> jsstring \<Rightarrow> jsstring list" where
  "splitSpaces acc [] = [acc]"
| "splitSpaces acc (c # cs) =
     (if isSpace c then acc # splitSpaces [] (dropWhile isSpace cs)
      else splitSpaces (acc @ [c]) cs)"
  by pat_completeness auto
termination
  by (relation "measure (\<lambda>(acc, s). length s)") (auto simp: less_Suc_eq_le length_dropWhile_le)

text \<open>
  The group of \<open>/[.!?]\s+(.+)$/\<close> when the sentence end has just been read and \<open>rest\<close>
  follows it. \<open>\s+\<close> takes the whole run of white space; the group must then reach the end
  of the input without a line terminator. When the white space runs to the end of the
  input, \<open>\s+\<close> gives back its last character, which becomes the group.
\<close>

definition sentenceGroup :: "jsstring \<Rightarrow> jsstring option" where
  "sentenceGroup rest =
     (let ws = takeWhile isSpace rest; r = dropWhile isSpace rest
      in if ws = [] then None
         else if r \<noteq> [] then (if list_ex isLineTerminator r then None else Some r)
         else if 2 \<le> length ws \<and> \<not> isLineTerminator (last ws) then Some [last ws]
         else None)"

text \<open>\<open>lastPart.match(/[.!?]\s+(.+)$/)\<close>: the group of the leftmost match, if any.\<close>

fun sentenceMatch :: "jsstring \<Rightarrow> jsstring option" where
  "sentenceMatch [] = None"
| "sentenceMatch (c # cs) =
     (if isSentenceEnd c then
        (case sentenceGroup cs of Some g \<Rightarrow> Some g | None \<Rightarrow> sentenceMatch cs)
      else sentenceMatch cs)"

text \<open>
  \<open>text.match(/[^.!?]+[.!?]+/g)\<close>: all matches, left to right. A match cannot start at a
  sentence end; from any other character it takes the run up to the next sentence end and
  then the run of sentence ends. When no sentence end follows, there is no further match.
\<close>

function matchSentences :: "jsstring \<Rightarrow> jsstring list" where
  "matchSentences [] = []"
| "matchSentences (c # cs) =
     (if isSentenceEnd c then matchSentences cs
      else (let body = c # takeWhile (\<lambda>x. \<not> isSentenceEnd x) cs;
                rest = dropWhile (\<lambda>x. \<not> isSentenceEnd x) cs
            in if rest = [] then []
               else (body @ takeWhile isSentenceEnd rest)
                    # matchSentences (dropWhile isSentenceEnd rest)))"
  by pat_completeness auto
termination
proof (relation "measure length")
  show "wf (measure length)" by simp
next
  fix c :: jschar and cs
  show "(cs, c # cs) \<in> measure length" by simp
next
  fix c :: jschar and cs x xa
  assume "xa = dropWhile (\<lambda>x. \<not> isSentenceEnd x) cs"
  then have "length (dropWhile isSentenceEnd xa) \<le> length cs"
    using length_dropWhile_le [of isSentenceEnd xa]
          length_dropWhile_le [of "\<lambda>x. \<not> isSentenceEnd x" cs] by simp
  then show "(dropWhile isSentenceEnd xa, c # cs) \<in> measure length" by simp
qed

subsection \<open>getLastWords\<close>

text \<open>
  \<open>text.slice(-maxLength)\<close>: the last \<open>maxLength\<close> code units; \<open>slice(-0)\<close> is \<open>slice(0)\<close>,
  the whole string.
\<close>

definition sliceLast :: "nat \<Rightarrow> jsstring \<Rightarrow> jsstring" where
  "sliceLast n text = (if n = 0 then text else drop (length text - n) text)"

text \<open>
  The loop \<open>for (i = words.length - 1; i >= 0; i--)\<close>, over the words from the last one to
  the first: a word is put in front of the result as long as the result stays within
  \<open>maxLength\<close>.
\<close>

fun lastWordsLoop :: "jsstring list \<Rightarrow> nat \<Rightarrow> jsstring \<Rightarrow> jsstring" where
  "lastWordsLoop [] maxLength result = result"
| "lastWordsLoop (w # ws) maxLength result =
     (let newResult = w @ [SP] @ result
      in if length newResult > maxLength then result
         else lastWordsLoop ws maxLength newResult)"

definition getLastWords :: "jsstring \<Rightarrow> nat \<Rightarrow> jsstring" where
  "getLastWords text maxLength =
     (if length text \<le> maxLength then text
      else (let lastPart = sliceLast maxLength text
            in case sentenceMatch lastPart of
                 Some g \<Rightarrow> g @ [SP]
               | None \<Rightarrow>
                   (let words = splitSpaces [] text;
                        result = lastWordsLoop (rev words) maxLength []
                    in trim result @ [SP])))"


subsection \<open>sentenceBasedChunking\<close>

text \<open>
  The state of both chunking loops: the chunks pushed so far, \<open>currentChunk\<close> and
  \<open>previousContext\<close>.
\<close>

type_synonym chunkState = "jsstring list \<times> jsstring \<times> jsstring"

fun sentenceLoop :: "nat \<Rightarrow> nat \<Rightarrow> jsstring list \<Rightarrow> chunkState \<Rightarrow> chunkState" where
  "sentenceLoop chunkSize overlapSize [] st = st"
| "sentenceLoop chunkSize overlapSize (sentence # rest) (chunks, currentChunk, previousContext) =
     (let trimmedSentence = trim sentence
      in if length (currentChunk @ trimmedSentence) > chunkSize \<and> currentChunk \<noteq> [] then
           sentenceLoop chunkSize overlapSize rest
             (chunks @ [trim (previousContext @ currentChunk)],
              trimmedSentence @ [SP],
              getLastWords currentChunk overlapSize)
         else
           sentenceLoop chunkSize overlapSize rest
             (chunks, currentChunk @ trimmedSentence @ [SP], previousContext))"

definition sentenceBasedChunking :: "jsstring \<Rightarrow> nat \<Rightarrow> nat \<Rightarrow> jsstring list" where
  "sentenceBasedChunking text chunkSize overlapSize =
     (let sentences = (case matchSentences text of [] \<Rightarrow> [text] | m # ms \<Rightarrow> m # ms)
      in case sentenceLoop chunkSize overlapSize sentences ([], [], []) of
           (chunks, currentChunk, previousContext) \<Rightarrow>
             if trim currentChunk \<noteq> [] then chunks @ [trim (previousContext @ currentChunk)]
             else chunks)"

subsection \<open>semanticChunking\<close>

definition paragraphsOf :: "jsstring \<Rightarrow> jsstring list" where
  "paragraphsOf text = filter (\<lambda>p. 0 < length p) (map trim (splitBlankLines [] text))"

text \<open>
  The loop over the paragraphs. The test \<open>i === paragraphs.length - 1\<close> holds exactly when
  no paragraph is left after the current one.
\<close>

fun paragraphLoop :: "nat \<Rightarrow> nat \<Rightarrow> jsstring list \<Rightarrow> chunkState \<Rightarrow> jsstring list" where
  "paragraphLoop chunkSize overlapSize [] (chunks, currentChunk, previousContext) = chunks"
| "paragraphLoop chunkSize overlapSize (paragraph # rest) (chunks, currentChunk, previousContext) =
     (let (chunks1, currentChunk1, previousContext1) =
            (if length (currentChunk @ paragraph) > chunkSize \<and> length currentChunk > 0 then
               (chunks @ [trim (previousContext @ currentChunk)],
                paragraph @ [LF, LF],
                getLastWords currentChunk overlapSize)
             else (chunks, currentChunk @ paragraph @ [LF, LF], previousContext));
          chunks2 =
            (if rest = [] \<and> length (trim currentChunk1) > 0
             then chunks1 @ [trim (previousContext1 @ currentChunk1)]
             else chunks1)
      in paragraphLoop chunkSize overlapSize rest (chunks2, currentChunk1, previousContext1))"

text \<open>
  The body of \<open>semanticChunking\<close> once \<open>overlapSize = Math.floor(chunkSize * overlapRatio)\<close>
  is known.
\<close>

definition semanticChunkingWith :: "jsstring \<Rightarrow> nat \<Rightarrow> nat \<Rightarrow> jsstring list" where
  "semanticChunkingWith text chunkSize overlapSize =
     (let chunks = paragraphLoop chunkSize overlapSize (paragraphsOf text) ([], [], [])
      in if length chunks = 0 \<and> length text > 0
         then sentenceBasedChunking text chunkSize overlapSize
         else chunks)"

text \<open>
  Numbers are IEEE 754 doubles, modelled by the rationals they denote. The product
  \<open>chunkSize * overlapRatio\<close> is the double nearest to the exact product, ties going to
  the even significand. Modelled are the finite numbers: products of \<open>2^1024\<close> and more,
  which JavaScript makes \<open>Infinity\<close>, are not.
\<close>

text \<open>The number of binary digits of a natural number.\<close>

fun bitLength :: "nat \<Rightarrow> nat" where
  "bitLength n = (if n = 0 then 0 else Suc (bitLength (n div 2)))"

declare bitLength.simps [simp del]

text \<open>The exponent \<open>e\<close> with \<open>2^e \<le> x < 2^(e+1)\<close>, for a positive \<open>x\<close>.\<close>

definition floorLog2 :: "rat \<Rightarrow> int" where
  "floorLog2 x =
     (if 1 \<le> x then int (bitLength (nat \<lfloor>x\<rfloor>)) - 1
      else - int (bitLength (nat \<lceil>1 / x\<rceil> - 1)))"

definition pow2 :: "int \<Rightarrow> rat" where
  "pow2 k = (if 0 \<le> k then 2 ^ nat k else 1 / 2 ^ nat (- k))"

text \<open>The integer nearest to \<open>q\<close>; of two nearest integers, the even one.\<close>

definition roundTiesToEven :: "rat \<Rightarrow> int" where
  "roundTiesToEven q =
     (let f = \<lfloor>q\<rfloor>
      in if 2 * q < of_int (2 * f + 1) then f
         else if of_int (2 * f + 1) < 2 * q then f + 1
         else if even f then f else f + 1)"

text \<open>
  The double nearest to a positive \<open>x\<close>: a multiple of the unit in the last place, which
  is \<open>2^(e - 52)\<close> for a normal number and \<open>2^(-1074)\<close> for a subnormal one.
\<close>

definition roundPositive :: "rat \<Rightarrow> rat" where
  "roundPositive x =
     (let ulp = pow2 (max (floorLog2 x) (- 1022) - 52)
      in of_int (roundTiesToEven (x / ulp)) * ulp)"

definition roundDouble :: "rat \<Rightarrow> rat" where
  "roundDouble x =
     (if x = 0 then 0 else if x < 0 then - roundPositive (- x) else roundPositive x)"

text \<open>The operator \<open>*\<close> on two doubles.\<close>

definition doubleProduct :: "rat \<Rightarrow> rat \<Rightarrow> rat" where
  "doubleProduct a b = roundDouble (a * b)"

text \<open>
  \<open>Math.floor(chunkSize * overlapRatio)\<close> for a chunk size that is a natural number and a
  ratio that is not negative (for a negative ratio the code gets a negative overlap size,
  which has no counterpart here: \<open>nat\<close> makes it zero).
\<close>

definition overlapSizeOf :: "nat \<Rightarrow> rat \<Rightarrow> nat" where
  "overlapSizeOf chunkSize overlapRatio = nat \<lfloor>doubleProduct (of_nat chunkSize) overlapRatio\<rfloor>"

definition semanticChunking :: "jsstring \<Rightarrow> nat \<Rightarrow> rat \<Rightarrow> jsstring list" where
  "semanticChunking text chunkSize overlapRatio =
     semanticChunkingWith text chunkSize (overlapSizeOf chunkSize overlapRatio)"

text \<open>
  What the paragraph loop pushes, as pairs (\<open>previousContext\<close>, \<open>currentChunk\<close>) before they
  are concatenated and trimmed: the second component is the buffer of the chunk before the
  overlap is put in front of it.
\<close>

fun paragraphEmissions ::
  "nat \<Rightarrow> nat \<Rightarrow> jsstring list \<Rightarrow> jsstring \<times> jsstring \<Rightarrow> (jsstring \<times> jsstring) list" where
  "paragraphEmissions chunkSize overlapSize [] (currentChunk, previousContext) = []"
| "paragraphEmissions chunkSize overlapSize (paragraph # rest) (currentChunk, previousContext) =
     (if length (currentChunk @ paragraph) > chunkSize \<and> length currentChunk > 0 then
        (previousContext, currentChunk)
        # (if rest = [] \<and> length (trim (paragraph @ [LF, LF])) > 0
           then [(getLastWords currentChunk overlapSize, paragraph @ [LF, LF])] else [])
        @ paragraphEmissions chunkSize overlapSize rest
            (paragraph @ [LF, LF], getLastWords currentChunk overlapSize)
      else
        (if rest = [] \<and> length (trim (currentChunk @ paragraph @ [LF, LF])) > 0
         then [(previousContext, currentChunk @ paragraph @ [LF, LF])] else [])
        @ paragraphEmissions chunkSize overlapSize rest
            (currentChunk @ paragraph @ [LF, LF], previousContext))"

text \<open>
  The emissions are linked when each one carries as its context what \<open>getLastWords\<close>
  returns for the buffer of the one before it, the first one carrying \<open>ctx\<close>.
\<close>

fun linked :: "nat \<Rightarrow> jsstring \<Rightarrow> (jsstring \<times> jsstring) list \<Rightarrow> bool" where
  "linked overlapSize ctx [] = True"
| "linked overlapSize ctx ((p, b) # r) = (p = ctx \<and> linked overlapSize (getLastWords b overlapSize) r)"

text \<open>A string that is not empty and has no white space at either end.\<close>

definition isTrimmed :: "jsstring \<Rightarrow> bool" where
  "isTrimmed p \<longleftrightarrow> p \<noteq> [] \<and> \<not> isSpace (hd p) \<and> \<not> isSpace (last p)"

text \<open>A buffer of the paragraph loop: it starts with a paragraph and ends with a blank line.\<close>

definition isBuffer :: "jsstring \<Rightarrow> bool" where
  "isBuffer b \<longleftrightarrow> b \<noteq> [] \<and> \<not> isSpace (hd b) \<and> suffix [LF, LF] b"

text \<open>The words of a string: its maximal runs of characters that are not white space.\<close>

definition wordsOf :: "jsstring \<Rightarrow> jsstring list" where
  "wordsOf s = filter (\<lambda>w. w \<noteq> []) (splitSpaces [] s)"

text \<open>\<open>trimEnd\<close>: the string without its trailing white space.\<close>

definition trimEnd :: "jsstring \<Rightarrow> jsstring" where
  "trimEnd s = rev (dropWhile isSpace (rev s))"

text \<open>The paragraphs joined by blank lines.\<close>

fun joinParagraphs :: "jsstring list \<Rightarrow> jsstring" where
  "joinParagraphs [] = []"
| "joinParagraphs [p] = p"
| "joinParagraphs (p # q # ps) = p @ [LF, LF] @ joinParagraphs (q # ps)"


section \<open>JSON.stringify and JSON.parse\<close>

text \<open>
  The two built-ins of the platform, as ECMAScript specifies them, for the values the
  service serialises: an object whose properties are strings and non-negative integers.
\<close>

datatype json =
    JNull
  | JBool bool
  | JNumber rat
  | JString jsstring
  | JArray "json list"
  | JObject "(jsstring \<times> json) list"

subsection \<open>Number to string\<close>

definition digitChar :: "nat \<Rightarrow> jschar" where
  "digitChar d = of_nat (48 + d)"

text \<open>
  \<open>Number.prototype.toString\<close> and template interpolation of a non-negative integer
  (below \<open>10^21\<close>, where the exponent notation starts): its decimal digits.
\<close>

fun numberToString :: "nat \<Rightarrow> jsstring" where
  "numberToString n =
     (if n < 10 then [digitChar n] else numberToString (n div 10) @ [digitChar (n mod 10)])"

declare numberToString.simps [simp del]

subsection \<open>JSON.stringify\<close>

definition hexDigitChar :: "nat \<Rightarrow> jschar" where
  "hexDigitChar d = (if d < 10 then of_nat (48 + d) else of_nat (87 + d))"

text \<open>\<open>\uXXXX\<close> with four lower-case hexadecimal digits (UnicodeEscape).\<close>

definition unicodeEscape :: "jschar \<Rightarrow> jsstring" where
  "unicodeEscape c =
     [0x5C, 0x75,
      hexDigitChar (unat c div 4096),
      hexDigitChar (unat c div 256 mod 16),
      hexDigitChar (unat c div 16 mod 16),
      hexDigitChar (unat c mod 16)]"

definition isHighSurrogate :: "jschar \<Rightarrow> bool" where
  "isHighSurrogate c \<longleftrightarrow> 0xD800 \<le> c \<and> c \<le> 0xDBFF"

definition isLowSurrogate :: "jschar \<Rightarrow> bool" where
  "isLowSurrogate c \<longleftrightarrow> 0xDC00 \<le> c \<and> c \<le> 0xDFFF"

text \<open>One code unit that is not part of a surrogate pair, as QuoteJSONString writes it.\<close>

definition quoteUnit :: "jschar \<Rightarrow> jsstring" where
  "quoteUnit c =
     (if c = 0x08 then [0x5C, 0x62]
      else if c = 0x09 then [0x5C, 0x74]
      else if c = 0x0A then [0x5C, 0x6E]
      else if c = 0x0C then [0x5C, 0x66]
      else if c = 0x0D then [0x5C, 0x72]
      else if c = 0x22 then [0x5C, 0x22]
      else if c = 0x5C then [0x5C, 0x5C]
      else if c < 0x20 \<or> isHighSurrogate c \<or> isLowSurrogate c then unicodeEscape c
      else [c])"

text \<open>
  The characters between the quotes: a high surrogate followed by a low surrogate is one
  code point and is copied; every other code unit goes through \<open>quoteUnit\<close>.
\<close>

fun quoteChars :: "jsstring \<Rightarrow> jsstring" where
  "quoteChars [] = []"
| "quoteChars [c] = quoteUnit c"
| "quoteChars (c # d # cs) =
     (if isHighSurrogate c \<and> isLowSurrogate d then c # d # quoteChars cs
      else quoteUnit c @ quoteChars (d # cs))"

definition quoteJSONString :: "jsstring \<Rightarrow> jsstring" where
  "quoteJSONString s = [0x22] @ quoteChars s @ [0x22]"

subsection \<open>JSON.parse\<close>

definition isJsonSpace :: "jschar \<Rightarrow> bool" where
  "isJsonSpace c \<longleftrightarrow> c = 0x09 \<or> c = 0x0A \<or> c = 0x0D \<or> c = 0x20"

definition skipSpace :: "jsstring \<Rightarrow> jsstring" where
  "skipSpace s = dropWhile isJsonSpace s"

definition isDigit :: "jschar \<Rightarrow> bool" where
  "isDigit c \<longleftrightarrow> 0x30 \<le> c \<and> c \<le> 0x39"

definition digitValue :: "jschar \<Rightarrow> nat" where
  "digitValue c = unat c - 48"

definition digitsValue :: "jsstring \<Rightarrow> nat" where
  "digitsValue ds = foldl (\<lambda>a d. 10 * a + digitValue d) 0 ds"

definition hexValue :: "jschar \<Rightarrow> nat option" where
  "hexValue c =
     (if 0x30 \<le> c \<and> c \<le> 0x39 then Some (unat c - 48)
      else if 0x61 \<le> c \<and> c \<le> 0x66 then Some (unat c - 87)
      else if 0x41 \<le> c \<and> c \<le> 0x46 then Some (unat c - 55)
      else None)"

definition hex4 :: "jschar \<Rightarrow> jschar \<Rightarrow> jschar \<Rightarrow> jschar \<Rightarrow> jschar option" where
  "hex4 a b c d =
     (case (hexValue a, hexValue b, hexValue c, hexValue d) of
        (Some x, Some y, Some z, Some w) \<Rightarrow> Some (of_nat (((x * 16 + y) * 16 + z) * 16 + w))
      | _ \<Rightarrow> None)"

definition simpleEscape :: "jschar \<Rightarrow> jschar option" where
  "simpleEscape e =
     (if e = 0x22 then Some 0x22
      else if e = 0x5C then Some 0x5C
      else if e = 0x2F then Some 0x2F
      else if e = 0x62 then Some 0x08
      else if e = 0x66 then Some 0x0C
      else if e = 0x6E then Some 0x0A
      else if e = 0x72 then Some 0x0D
      else if e = 0x74 then Some 0x09
      else None)"

text \<open>
  The characters of a JSON string after its opening quote: the decoded string and what
  follows the closing quote.
\<close>

fun parseChars :: "jsstring \<Rightarrow> (jsstring \<times> jsstring) option" where
  "parseChars [] = None"
| "parseChars (c # cs) =
     (if c = 0x22 then Some ([], cs)
      else if c = 0x5C then
        (case cs of
           [] \<Rightarrow> None
         | e # es \<Rightarrow>
             if e = 0x75 then
               (case es of
                  h1 # h2 # h3 # h4 # r \<Rightarrow>
                    (case hex4 h1 h2 h3 h4 of
                       None \<Rightarrow> None
                     | Some u \<Rightarrow> map_option (\<lambda>(t, r'). (u # t, r')) (parseChars r))
                | _ \<Rightarrow> None)
             else
               (case simpleEscape e of
                  None \<Rightarrow> None
                | Some u \<Rightarrow> map_option (\<lambda>(t, r'). (u # t, r')) (parseChars es)))
      else if c < 0x20 then None
      else map_option (\<lambda>(t, r'). (c # t, r')) (parseChars cs))"

text \<open>
  A JSON number: \<open>-? (0 | [1-9][0-9]*) (. [0-9]+)? ([eE] [+-]? [0-9]+)?\<close>. Its value is kept
  exact; JavaScript rounds it to a double.
\<close>

definition parseInt :: "jsstring \<Rightarrow> (nat \<times> jsstring) option" where
  "parseInt s =
     (case s of
        [] \<Rightarrow> None
      | c # cs \<Rightarrow>
          if c = 0x30 then Some (0, cs)
          else if isDigit c then
            Some (digitsValue (c # takeWhile isDigit cs), dropWhile isDigit cs)
          else None)"

definition parseFraction :: "jsstring \<Rightarrow> (rat \<times> jsstring) option" where
  "parseFraction s =
     (case s of
        c # cs \<Rightarrow>
          if c = 0x2E then
            (let ds = takeWhile isDigit cs
             in if ds = [] then None
                else Some (of_nat (digitsValue ds) / 10 ^ length ds, dropWhile isDigit cs))
          else Some (0, s)
      | [] \<Rightarrow> Some (0, s))"

definition parseExponent :: "jsstring \<Rightarrow> (rat \<times> jsstring) option" where
  "parseExponent s =
     (case s of
        c # cs \<Rightarrow>
          if c = 0x65 \<or> c = 0x45 then
            (let negative = (case cs of d # _ \<Rightarrow> d = 0x2D | [] \<Rightarrow> False);
                 signed = (case cs of d # _ \<Rightarrow> d = 0x2D \<or> d = 0x2B | [] \<Rightarrow> False);
                 r = (if signed then tl cs else cs);
                 ds = takeWhile isDigit r
             in if ds = [] then None
                else Some (if negative then 1 / 10 ^ digitsValue ds else 10 ^ digitsValue ds,
                           dropWhile isDigit r))
          else Some (1, s)
      | [] \<Rightarrow> Some (1, s))"

definition parseNumber :: "jsstring \<Rightarrow> (rat \<times> jsstring) option" where
  "parseNumber s =
     (let negative = (case s of c # _ \<Rightarrow> c = 0x2D | [] \<Rightarrow> False);
          s1 = (if negative then tl s else s)
      in case parseInt s1 of
           None \<Rightarrow> None
         | Some (i, s2) \<Rightarrow>
             (case parseFraction s2 of
                None \<Rightarrow> None
              | Some (f, s3) \<Rightarrow>
                  (case parseExponent s3 of
                     None \<Rightarrow> None
                   | Some (e, s4) \<Rightarrow>
                       Some ((if negative then - 1 else 1) * (of_nat i + f) * e, s4))))"

text \<open>What may follow a number inside an object: a comma or the closing brace.\<close>

definition endsNumber :: "jsstring \<Rightarrow> bool" where
  "endsNumber rest \<longleftrightarrow> rest \<noteq> [] \<and> (hd rest = 0x2C \<or> hd rest = 0x7D)"

text \<open>
  A property set twice keeps its first position and takes the last value, as
  \<open>CreateDataProperty\<close> does on the object being built.
\<close>

fun setProperty :: "(jsstring \<times> 'v) list \<Rightarrow> jsstring \<Rightarrow> 'v \<Rightarrow> (jsstring \<times> 'v) list" where
  "setProperty [] k v = [(k, v)]"
| "setProperty ((k', v') # ps) k v =
     (if k' = k then (k, v) # ps else (k', v') # setProperty ps k v)"

text \<open>
  The recursive descent over values, the members of an object and the elements of an array.
  The first argument bounds the number of nested calls; each call is made after at least
  one character was read, so \<open>JSON_parse\<close> starts with more than the length of the text.
\<close>

fun parseValue :: "nat \<Rightarrow> jsstring \<Rightarrow> (json \<times> jsstring) option"
  and parseMembers :: "nat \<Rightarrow> jsstring \<Rightarrow> (jsstring \<times> json) list \<Rightarrow> (json \<times> jsstring) option"
  and parseElements :: "nat \<Rightarrow> jsstring \<Rightarrow> json list \<Rightarrow> (json \<times> jsstring) option" where
  "parseValue 0 s = None"
| "parseValue (Suc n) s =
     (case s of
        [] \<Rightarrow> None
      | c # cs \<Rightarrow>
          if c = 0x7B then
            (case skipSpace cs of
               [] \<Rightarrow> None
             | d # ds \<Rightarrow> if d = 0x7D then Some (JObject [], ds) else parseMembers n (d # ds) [])
          else if c = 0x5B then
            (case skipSpace cs of
               [] \<Rightarrow> None
             | d # ds \<Rightarrow> if d = 0x5D then Some (JArray [], ds) else parseElements n (d # ds) [])
          else if c = 0x22 then map_option (\<lambda>(t, r). (JString t, r)) (parseChars cs)
          else if take 4 s = [0x74, 0x72, 0x75, 0x65] then Some (JBool True, drop 4 s)
          else if take 5 s = [0x66, 0x61, 0x6C, 0x73, 0x65] then Some (JBool False, drop 5 s)
          else if take 4 s = [0x6E, 0x75, 0x6C, 0x6C] then Some (JNull, drop 4 s)
          else map_option (\<lambda>(x, r). (JNumber x, r)) (parseNumber s))"
| "parseMembers 0 s acc = None"
| "parseMembers (Suc n) s acc =
     (case s of
        [] \<Rightarrow> None
      | c # cs \<Rightarrow>
          if c = 0x22 then
            (case parseChars cs of
               None \<Rightarrow> None
             | Some (k, r) \<Rightarrow>
                 (case skipSpace r of
                    [] \<Rightarrow> None
                  | d # ds \<Rightarrow>
                      if d = 0x3A then
                        (case parseValue n (skipSpace ds) of
                           None \<Rightarrow> None
                         | Some (v, r2) \<Rightarrow>
                             (case skipSpace r2 of
                                [] \<Rightarrow> None
                              | e # es \<Rightarrow>
                                  if e = 0x2C then parseMembers n (skipSpace es) (setProperty acc k v)
                                  else if e = 0x7D then Some (JObject (setProperty acc k v), es)
                                  else None))
                      else None))
          else None)"
| "parseElements 0 s acc = None"
| "parseElements (Suc n) s acc =
     (case parseValue n s of
        None \<Rightarrow> None
      | Some (v, r) \<Rightarrow>
          (case skipSpace r of
             [] \<Rightarrow> None
           | e # es \<Rightarrow>
               if e = 0x2C then parseElements n (skipSpace es) (acc @ [v])
               else if e = 0x5D then Some (JArray (acc @ [v]), es)
               else None))"

text \<open>\<open>JSON.parse(text)\<close>: the value, or \<open>None\<close> where the built-in throws a SyntaxError.\<close>

definition JSON_parse :: "jsstring \<Rightarrow> json option" where
  "JSON_parse text =
     (case parseValue (Suc (length text)) (skipSpace text) of
        None \<Rightarrow> None
      | Some (v, r) \<Rightarrow> if skipSpace r = [] then Some v else None)"


section \<open>Entities, requests and errors\<close>

datatype documentStatus = StatusUploading | StatusProcessing | StatusReady | StatusError

text \<open>
  The \<open>Document\<close> entity. Its columns \<open>id\<close>, \<open>name\<close>, \<open>type\<close>, \<open>size\<close> and \<open>path\<close> carry the
  prefix \<open>doc\<close> here; a nullable column is an option.
\<close>

record Document =
  docId :: jsstring
  docName :: jsstring
  docType :: jsstring
  docSize :: nat
  docPath :: jsstring
  textFilePath :: "jsstring option"
  assistantFileId :: "jsstring option"
  fileHash :: "jsstring option"
  status :: documentStatus
  errorMessage :: "jsstring option"
  userId :: jsstring
  categoryId :: "jsstring option"

record Chunk =
  chunkId :: jsstring
  documentId :: jsstring
  content :: jsstring
  chunkIndex :: nat
  pineconeId :: jsstring

record User =
  email :: jsstring
  name :: jsstring

text \<open>\<open>Express.Multer.File\<close>, the fields the service reads.\<close>

record MulterFile =
  originalname :: jsstring
  mimetype :: jsstring
  fileSize :: nat
  buffer :: "8 word list"

text \<open>\<open>uploadedBy: { email: user?.email || null, name: user?.name || null }\<close>.\<close>

record Uploader =
  uploaderEmail :: "jsstring option"
  uploaderName :: "jsstring option"

text \<open>
  A document as the service returns it: its own columns and, where the service adds it,
  \<open>uploadedBy\<close>.
\<close>

record DocumentView =
  viewDocument :: Document
  uploadedBy :: "Uploader option"

record ConflictResponse =
  conflictMessage :: jsstring
  existingDocument :: DocumentView

datatype exception =
    NotFoundException jsstring
  | ConflictException ConflictResponse
  | BadRequestException jsstring
  | JsError jsstring

fun messageOf :: "exception \<Rightarrow> jsstring" where
  "messageOf (NotFoundException m) = m"
| "messageOf (ConflictException r) = conflictMessage r"
| "messageOf (BadRequestException m) = m"
| "messageOf (JsError m) = m"

text \<open>The records sent to the vector index: \<open>{ id, text, category }\<close>.\<close>

record VectorItem =
  itemId :: jsstring
  itemText :: jsstring
  itemCategory :: jsstring

text \<open>A search hit as the index returns it (\<open>_id\<close>, \<open>_score\<close>, \<open>fields\<close>).\<close>

record Hit =
  hitId :: jsstring
  hitScore :: rat
  fieldCategory :: "jsstring option"
  fieldText :: "jsstring option"

text \<open>A hit as \<open>queryVectors\<close> returns it: \<open>metadata\<close>, \<open>category\<close> and \<open>text\<close> are always set.\<close>

record ParsedHit =
  parsedId :: jsstring
  parsedScore :: rat
  parsedMetadata :: json
  parsedCategory :: jsstring
  parsedText :: jsstring

text \<open>The structured metadata of one chunk, built in \<open>processDocument\<close>.\<close>

record ChunkMetadata =
  mdDocumentId :: jsstring
  mdUserId :: jsstring
  mdFileName :: jsstring
  mdFileType :: jsstring
  mdChunkIndex :: nat
  mdTotalChunks :: nat
  mdCreatedAt :: jsstring

datatype fileContent = Bytes "8 word list" | Utf8Text jsstring

text \<open>The calls made to the remote services, in the order they are issued.\<close>

datatype remoteCall =
    UpsertRecords jsstring jsstring "VectorItem list"
  | DeleteMany jsstring jsstring "jsstring list"
  | SearchRecords jsstring jsstring jsstring nat
  | AssistantUploadFile jsstring
  | AssistantDeleteFile jsstring


section \<open>Environment and state\<close>

text \<open>
  Everything outside the service: the configuration, the platform (hash, paths, clock,
  identifiers, the file name decoder) and the collaborators (text extraction, the semantic
  chunker, the assistant file store, the vector indexes). A collaborator that can fail
  returns the exception it throws.
\<close>

record env =
  UPLOAD_PATH :: "jsstring option"
  PINECONE_INDEX_NAME :: "jsstring option"
  PINECONE_INDEX_URL :: "jsstring option"
  PINECONE_INDEX_NAME_AIR :: "jsstring option"
  PINECONE_INDEX_URL_AIR :: "jsstring option"
  sha256hex :: "8 word list \<Rightarrow> jsstring"
  pathJoin :: "jsstring \<Rightarrow> jsstring \<Rightarrow> jsstring"
  dateNow :: nat
  toISOString :: "nat \<Rightarrow> jsstring"
  uuid :: "nat \<Rightarrow> jsstring"
  decodeFilename :: "jsstring \<Rightarrow> jsstring"
  writeFileError :: "jsstring \<Rightarrow> exception option"
  parseFile :: "jsstring \<Rightarrow> jsstring \<Rightarrow> exception + jsstring"
  geminiChunking :: "jsstring \<Rightarrow> nat \<Rightarrow> exception + jsstring list"
  assistantUploadFile :: "jsstring \<Rightarrow> exception + jsstring"
  assistantDeleteFile :: "jsstring \<Rightarrow> exception option"
  upsertRecords :: "jsstring \<Rightarrow> jsstring \<Rightarrow> VectorItem list \<Rightarrow> exception option"
  deleteMany :: "jsstring \<Rightarrow> jsstring \<Rightarrow> jsstring list \<Rightarrow> exception option"
  searchRecords :: "jsstring \<Rightarrow> jsstring \<Rightarrow> jsstring \<Rightarrow> exception + Hit list"

text \<open>
  The two tables, the users the \<open>user\<close> relation is loaded from, the file system, the log
  of remote calls and the number of identifiers generated so far. The database itself is
  taken to be available: its operations do not fail.
\<close>

record state =
  documents :: "Document list"
  chunks :: "Chunk list"
  users :: "jsstring \<Rightarrow> User option"
  files :: "jsstring \<Rightarrow> fileContent option"
  directories :: "jsstring set"
  remoteCalls :: "remoteCall list"
  generated :: nat

text \<open>\<open>configService.get(key, default)\<close>.\<close>

definition configGet :: "jsstring option \<Rightarrow> jsstring \<Rightarrow> jsstring" where
  "configGet v d = (case v of None \<Rightarrow> d | Some x \<Rightarrow> x)"

text \<open>The truth value of a string that may be undefined or null.\<close>

definition truthy :: "jsstring option \<Rightarrow> bool" where
  "truthy v = (case v of None \<Rightarrow> False | Some x \<Rightarrow> x \<noteq> [])"

text \<open>\<open>a || b\<close> on such strings.\<close>

definition orElse :: "jsstring option \<Rightarrow> jsstring \<Rightarrow> jsstring" where
  "orElse v d = (case v of None \<Rightarrow> d | Some x \<Rightarrow> if x = [] then d else x)"

definition existsSync :: "state \<Rightarrow> jsstring \<Rightarrow> bool" where
  "existsSync s p \<longleftrightarrow> files s p \<noteq> None \<or> p \<in> directories s"

text \<open>\<open>fs.unlinkSync\<close> removes a file and throws on anything else.\<close>

definition unlinkSync :: "state \<Rightarrow> jsstring \<Rightarrow> exception + state" where
  "unlinkSync s p =
     (if files s p \<noteq> None then Inr (s\<lparr>files := (files s)(p := None)\<rparr>)
      else Inl (JsError (js ''EPERM: operation not permitted, unlink'')))"

definition uploaderOf :: "User option \<Rightarrow> Uploader" where
  "uploaderOf user =
     \<lparr>uploaderEmail = (case user of None \<Rightarrow> None
                        | Some u \<Rightarrow> if email u = [] then None else Some (email u)),
      uploaderName = (case user of None \<Rightarrow> None
                       | Some u \<Rightarrow> if name u = [] then None else Some (name u))\<rparr>"

text \<open>A document loaded with \<open>relations: ['user']\<close> and mapped to the returned shape.\<close>

definition withUploader :: "state \<Rightarrow> Document \<Rightarrow> DocumentView" where
  "withUploader s d = \<lparr>viewDocument = d, uploadedBy = Some (uploaderOf (users s (userId d)))\<rparr>"

text \<open>\<open>documentRepository.update(documentId, { status, errorMessage })\<close>; an undefined
  \<open>errorMessage\<close> leaves the column as it is.\<close>

definition updateDocumentStatus ::
  "state \<Rightarrow> jsstring \<Rightarrow> documentStatus \<Rightarrow> jsstring option \<Rightarrow> state" where
  "updateDocumentStatus s did st msg =
     s\<lparr>documents :=
         map (\<lambda>d. if docId d = did
                  then d\<lparr>status := st,
                        errorMessage := (case msg of None \<Rightarrow> errorMessage d | Some m \<Rightarrow> Some m)\<rparr>
                  else d)
             (documents s)\<rparr>"

definition getDocument :: "state \<Rightarrow> jsstring \<Rightarrow> jsstring \<Rightarrow> exception + Document" where
  "getDocument s did uid =
     (case find (\<lambda>d. docId d = did \<and> userId d = uid) (documents s) of
        None \<Rightarrow> Inl (NotFoundException (js ''Document not found''))
      | Some d \<Rightarrow> Inr d)"


section \<open>pinecone.service.ts\<close>

record IndexConfig =
  indexName :: jsstring
  indexUrl :: jsstring

text \<open>
  The object \<open>indexes\<close> every method builds from the configuration: the default index when
  its URL is set, then the index named by \<open>PINECONE_INDEX_NAME_AIR\<close> when its URL is set.
  Both are stored under their names, so the second assignment replaces the first when the
  names are equal.
\<close>

definition configuredIndexes :: "env \<Rightarrow> (jsstring \<times> IndexConfig) list" where
  "configuredIndexes e =
     (let defaultIndexName = configGet (PINECONE_INDEX_NAME e) (js ''air-multy'');
          defaultIndexUrl = PINECONE_INDEX_URL e;
          airIndexName = configGet (PINECONE_INDEX_NAME_AIR e) (js ''air'');
          airIndexUrl = PINECONE_INDEX_URL_AIR e;
          indexes1 =
            (if truthy defaultIndexUrl
             then setProperty [] defaultIndexName
                    \<lparr>indexName = defaultIndexName, indexUrl = the defaultIndexUrl\<rparr>
             else []);
          indexes2 =
            (if truthy airIndexUrl
             then setProperty indexes1 airIndexName
                    \<lparr>indexName = airIndexName, indexUrl = the airIndexUrl\<rparr>
             else indexes1)
      in indexes2)"

text \<open>
  A property name that is an array index: a canonical decimal numeral below \<open>2^32 - 1\<close>.
\<close>

definition arrayIndex :: "jsstring \<Rightarrow> nat option" where
  "arrayIndex k =
     (if k \<noteq> [] \<and> list_all isDigit k \<and> (k = [0x30] \<or> hd k \<noteq> 0x30)
         \<and> digitsValue k < 4294967295
      then Some (digitsValue k) else None)"

text \<open>
  The order of \<open>for (const index in indexes)\<close>: array indices in ascending order, then the
  other names in the order they were added.
\<close>

definition forIn :: "(jsstring \<times> 'v) list \<Rightarrow> (jsstring \<times> 'v) list" where
  "forIn ps =
     sort_key (\<lambda>p. case arrayIndex (fst p) of Some i \<Rightarrow> i | None \<Rightarrow> 0)
       (filter (\<lambda>p. arrayIndex (fst p) \<noteq> None) ps)
     @ filter (\<lambda>p. arrayIndex (fst p) = None) ps"

text \<open>
  The loop \<open>for (const index in indexes) { await namespace.upsertRecords(vector) }\<close>: the
  calls are issued in order and the first one that fails ends the loop with its exception.
\<close>

fun upsertLoop ::
  "env \<Rightarrow> VectorItem list \<Rightarrow> (jsstring \<times> IndexConfig) list \<Rightarrow> state \<Rightarrow> exception option \<times> state" where
  "upsertLoop e vector [] s = (None, s)"
| "upsertLoop e vector ((k, ix) # rest) s =
     (let s1 = s\<lparr>remoteCalls := remoteCalls s @ [UpsertRecords (indexName ix) (indexUrl ix) vector]\<rparr>
      in case upsertRecords e (indexName ix) (indexUrl ix) vector of
           Some err \<Rightarrow> (Some err, s1)
         | None \<Rightarrow> upsertLoop e vector rest s1)"

definition upsertVector :: "env \<Rightarrow> VectorItem list \<Rightarrow> state \<Rightarrow> (exception + jsstring list) \<times> state" where
  "upsertVector e vector s =
     (let chunkIds = filter (\<lambda>i. i \<noteq> []) (map itemId vector);
          indexes = configuredIndexes e
      in if length indexes = 0
         then (Inl (JsError (js ''At least one Pinecone index URL must be configured'')), s)
         else (case upsertLoop e vector (forIn indexes) s of
                 (Some err, s') \<Rightarrow> (Inl err, s')
               | (None, s') \<Rightarrow> (Inr chunkIds, s')))"

text \<open>The call one index receives, and whether the index accepts it.\<close>

definition upsertCall :: "VectorItem list \<Rightarrow> jsstring \<times> IndexConfig \<Rightarrow> remoteCall" where
  "upsertCall vector p = UpsertRecords (indexName (snd p)) (indexUrl (snd p)) vector"

definition upsertAccepted :: "env \<Rightarrow> VectorItem list \<Rightarrow> jsstring \<times> IndexConfig \<Rightarrow> bool" where
  "upsertAccepted e vector p \<longleftrightarrow> upsertRecords e (indexName (snd p)) (indexUrl (snd p)) vector = None"

definition deleteAccepted :: "env \<Rightarrow> jsstring list \<Rightarrow> jsstring \<times> IndexConfig \<Rightarrow> bool" where
  "deleteAccepted e ids p \<longleftrightarrow> deleteMany e (indexName (snd p)) (indexUrl (snd p)) ids = None"

fun deleteLoop ::
  "env \<Rightarrow> jsstring list \<Rightarrow> (jsstring \<times> IndexConfig) list \<Rightarrow> state \<Rightarrow> exception option \<times> state" where
  "deleteLoop e ids [] s = (None, s)"
| "deleteLoop e ids ((k, ix) # rest) s =
     (let s1 = s\<lparr>remoteCalls := remoteCalls s @ [DeleteMany (indexName ix) (indexUrl ix) ids]\<rparr>
      in case deleteMany e (indexName ix) (indexUrl ix) ids of
           Some err \<Rightarrow> (Some err, s1)
         | None \<Rightarrow> deleteLoop e ids rest s1)"

definition deleteVectors :: "env \<Rightarrow> jsstring list \<Rightarrow> state \<Rightarrow> exception option \<times> state" where
  "deleteVectors e ids s =
     (if length ids = 0 then (None, s)
      else deleteLoop e ids (forIn (configuredIndexes e)) s)"

text \<open>The callback of \<open>results.result.hits.map\<close>, with its \<open>try\<close> and \<open>catch\<close> branches.\<close>

definition parseHit :: "Hit \<Rightarrow> ParsedHit" where
  "parseHit hit =
     (let categoryValue = orElse (fieldCategory hit) (orElse (fieldText hit) [])
      in case JSON_parse categoryValue of
           Some parsed \<Rightarrow>
             \<lparr>parsedId = hitId hit, parsedScore = hitScore hit,
              parsedMetadata = parsed,
              parsedCategory = categoryValue,
              parsedText = orElse (fieldText hit) categoryValue\<rparr>
         | None \<Rightarrow>
             \<lparr>parsedId = hitId hit, parsedScore = hitScore hit,
              parsedMetadata = JObject [(js ''documentId'', JString categoryValue)],
              parsedCategory = categoryValue,
              parsedText = orElse (fieldText hit) categoryValue\<rparr>)"

definition queryVectors ::
  "env \<Rightarrow> jsstring \<Rightarrow> jsstring \<Rightarrow> state \<Rightarrow> (exception + ParsedHit list) \<times> state" where
  "queryVectors e text requestedIndex s =
     (let defaultIndexName = configGet (PINECONE_INDEX_NAME e) (js ''air-multy'');
          indexes = configuredIndexes e;
          selectedIndex =
            (case map_of indexes requestedIndex of
               Some ix \<Rightarrow> Some ix
             | None \<Rightarrow> map_of indexes defaultIndexName)
      in case selectedIndex of
           None \<Rightarrow>
             (Inl (JsError (js ''Index configuration not found for: '' @ requestedIndex)), s)
         | Some ix \<Rightarrow>
             (let s1 = s\<lparr>remoteCalls :=
                          remoteCalls s @ [SearchRecords (indexName ix) (indexUrl ix) text 3]\<rparr>
              in case searchRecords e (indexName ix) (indexUrl ix) text of
                   Inl err \<Rightarrow> (Inl err, s1)
                 | Inr hits \<Rightarrow> (Inr (map parseHit hits), s1)))"


section \<open>documents.service.ts\<close>

definition conflictText :: jsstring where
  "conflictText = js ''Document with the same content already exists''"

text \<open>
  \<open>uploadDocument\<close> up to its return. The call \<open>this.processDocument(document.id)\<close> it
  makes is not awaited; the pipeline it starts is \<open>backgroundProcess\<close> below, run on the
  document that was saved.
\<close>

definition uploadDocument ::
  "env \<Rightarrow> state \<Rightarrow> MulterFile \<Rightarrow> jsstring \<Rightarrow> (exception + DocumentView) \<times> state" where
  "uploadDocument e s file uid =
     (let uploadPath = configGet (UPLOAD_PATH e) (js ''./uploads'');
          s1 = (if \<not> existsSync s uploadPath
                then s\<lparr>directories := insert uploadPath (directories s)\<rparr> else s);
          decodedFilename = decodeFilename e (originalname file);
          hash = sha256hex e (buffer file)
      in case find (\<lambda>d. fileHash d = Some hash) (documents s1) of
           Some existing \<Rightarrow>
             (Inl (ConflictException
                     \<lparr>conflictMessage = conflictText,
                      existingDocument = withUploader s1 existing\<rparr>), s1)
         | None \<Rightarrow>
             (let filePath = pathJoin e uploadPath
                               (numberToString (dateNow e) @ js ''-'' @ decodedFilename)
              in case writeFileError e filePath of
                   Some err \<Rightarrow> (Inl err, s1)
                 | None \<Rightarrow>
                     (let s2 = s1\<lparr>files := (files s1)(filePath \<mapsto> Bytes (buffer file))\<rparr>;
                          document =
                            \<lparr>docId = uuid e (generated s2),
                             docName = decodedFilename,
                             docType = mimetype file,
                             docSize = fileSize file,
                             docPath = filePath,
                             textFilePath = None,
                             assistantFileId = None,
                             fileHash = Some hash,
                             status = StatusProcessing,
                             errorMessage = None,
                             userId = uid,
                             categoryId = None\<rparr>;
                          s3 = s2\<lparr>documents := documents s2 @ [document],
                                  generated := Suc (generated s2)\<rparr>
                      in case find (\<lambda>d. docId d = docId document) (documents s3) of
                           Some documentWithUser \<Rightarrow> (Inr (withUploader s3 documentWithUser), s3)
                         | None \<Rightarrow> (Inr \<lparr>viewDocument = document, uploadedBy = None\<rparr>, s3))))"

text \<open>The double that the literal \<open>0.1\<close> denotes: \<open>3602879701896397 / 2^55\<close>.\<close>

definition zeroPointOne :: rat where
  "zeroPointOne = 3602879701896397 / 36028797018963968"

definition splitIntoChunks :: "env \<Rightarrow> jsstring \<Rightarrow> nat \<Rightarrow> jsstring list" where
  "splitIntoChunks e text chunkSize =
     (case geminiChunking e text chunkSize of
        Inr result \<Rightarrow> result
      | Inl err \<Rightarrow> semanticChunking text chunkSize zeroPointOne)"

definition chunkMetadata :: "env \<Rightarrow> Document \<Rightarrow> nat \<Rightarrow> nat \<Rightarrow> ChunkMetadata" where
  "chunkMetadata e document i n =
     \<lparr>mdDocumentId = docId document,
      mdUserId = userId document,
      mdFileName = docName document,
      mdFileType = docType document,
      mdChunkIndex = i,
      mdTotalChunks = n,
      mdCreatedAt = toISOString e i\<rparr>"

text \<open>The object \<open>metadata\<close> as a JSON value, its properties in the order of the literal.\<close>

definition metadataJson :: "ChunkMetadata \<Rightarrow> json" where
  "metadataJson m =
     JObject
       [(js ''documentId'', JString (mdDocumentId m)),
        (js ''userId'', JString (mdUserId m)),
        (js ''fileName'', JString (mdFileName m)),
        (js ''fileType'', JString (mdFileType m)),
        (js ''chunkIndex'', JNumber (of_nat (mdChunkIndex m))),
        (js ''totalChunks'', JNumber (of_nat (mdTotalChunks m))),
        (js ''createdAt'', JString (mdCreatedAt m))]"

text \<open>\<open>JSON.stringify(metadata)\<close>: the properties in the order the object literal has them.\<close>

definition stringifyMetadata :: "ChunkMetadata \<Rightarrow> jsstring" where
  "stringifyMetadata m =
     [0x7B]
     @ quoteJSONString (js ''documentId'') @ [0x3A] @ quoteJSONString (mdDocumentId m) @ [0x2C]
     @ quoteJSONString (js ''userId'') @ [0x3A] @ quoteJSONString (mdUserId m) @ [0x2C]
     @ quoteJSONString (js ''fileName'') @ [0x3A] @ quoteJSONString (mdFileName m) @ [0x2C]
     @ quoteJSONString (js ''fileType'') @ [0x3A] @ quoteJSONString (mdFileType m) @ [0x2C]
     @ quoteJSONString (js ''chunkIndex'') @ [0x3A] @ numberToString (mdChunkIndex m) @ [0x2C]
     @ quoteJSONString (js ''totalChunks'') @ [0x3A] @ numberToString (mdTotalChunks m) @ [0x2C]
     @ quoteJSONString (js ''createdAt'') @ [0x3A] @ quoteJSONString (mdCreatedAt m)
     @ [0x7D]"

definition chunkPineconeId :: "jsstring \<Rightarrow> nat \<Rightarrow> jsstring" where
  "chunkPineconeId did i = did @ js ''_chunk_'' @ numberToString i"

text \<open>The array \<open>data\<close> built by the first loop of \<open>processDocument\<close>.\<close>

definition vectorData :: "env \<Rightarrow> jsstring \<Rightarrow> Document \<Rightarrow> jsstring list \<Rightarrow> VectorItem list" where
  "vectorData e did document chunkTexts =
     map (\<lambda>i. \<lparr>itemId = chunkPineconeId did i,
               itemText = chunkTexts ! i,
               itemCategory =
                 stringifyMetadata (chunkMetadata e document i (length chunkTexts))\<rparr>)
         [0..<length chunkTexts]"

text \<open>
  The array \<open>chunkEntities\<close> built by the second loop; \<open>chunkIds[i] || fallback\<close> takes the
  fallback where the returned list is too short or has an empty identifier.
\<close>

definition chunkEntities ::
  "env \<Rightarrow> nat \<Rightarrow> jsstring \<Rightarrow> Document \<Rightarrow> jsstring list \<Rightarrow> jsstring list \<Rightarrow> Chunk list" where
  "chunkEntities e firstId did document chunkTexts chunkIds =
     map (\<lambda>i. \<lparr>chunkId = uuid e (firstId + i),
               documentId = docId document,
               content = chunkTexts ! i,
               chunkIndex = i,
               pineconeId =
                 (if i < length chunkIds \<and> chunkIds ! i \<noteq> [] then chunkIds ! i
                  else chunkPineconeId did i)\<rparr>)
         [0..<length chunkTexts]"

definition processDocument :: "env \<Rightarrow> state \<Rightarrow> jsstring \<Rightarrow> (exception + unit) \<times> state" where
  "processDocument e s did =
     (case find (\<lambda>d. docId d = did) (documents s) of
        None \<Rightarrow> (Inl (NotFoundException (js ''Document not found'')), s)
      | Some document \<Rightarrow>
          (case parseFile e (docPath document) (docType document) of
             Inl err \<Rightarrow> (Inl err, s)
           | Inr parsed \<Rightarrow>
               (let cleaned = cleanTextLineBreaks parsed;
                    uploadPath = configGet (UPLOAD_PATH e) (js ''./uploads'');
                    textFileName = did @ js ''-text.txt'';
                    textPath = pathJoin e uploadPath textFileName
                in case writeFileError e textPath of
                     Some err \<Rightarrow> (Inl err, s)
                   | None \<Rightarrow>
                       (let s1 = s\<lparr>files := (files s)(textPath \<mapsto> Utf8Text cleaned)\<rparr>;
                            s2 = s1\<lparr>remoteCalls := remoteCalls s1 @ [AssistantUploadFile textPath]\<rparr>;
                            fileId = (case assistantUploadFile e textPath of
                                        Inr i \<Rightarrow> Some i
                                      | Inl err \<Rightarrow> None);
                            s3 = s2\<lparr>documents :=
                                      map (\<lambda>d. if docId d = did
                                               then d\<lparr>textFilePath := Some textPath,
                                                     assistantFileId := fileId\<rparr>
                                               else d)
                                          (documents s2)\<rparr>;
                            chunkTexts = splitIntoChunks e cleaned 1000;
                            data = vectorData e did document chunkTexts
                        in case upsertVector e data s3 of
                             (Inl err, s4) \<Rightarrow> (Inl err, s4)
                           | (Inr chunkIds, s4) \<Rightarrow>
                               (let entities = chunkEntities e (generated s4) did document
                                                 chunkTexts chunkIds;
                                    s5 = s4\<lparr>chunks := chunks s4 @ entities,
                                            generated := generated s4 + length entities\<rparr>
                                in (Inr (), updateDocumentStatus s5 did StatusReady None))))))"

text \<open>
  The detached call \<open>this.processDocument(id).catch((error) => { ...
  this.updateDocumentStatus(id, 'error', error.message) })\<close> of \<open>uploadDocument\<close> and of
  \<open>reprocessDocument\<close>.
\<close>

definition backgroundProcess :: "env \<Rightarrow> state \<Rightarrow> jsstring \<Rightarrow> state" where
  "backgroundProcess e s did =
     (case processDocument e s did of
        (Inl err, s') \<Rightarrow> updateDocumentStatus s' did StatusError (Some (messageOf err))
      | (Inr u, s') \<Rightarrow> s')"

definition deleteDocument :: "env \<Rightarrow> state \<Rightarrow> jsstring \<Rightarrow> jsstring \<Rightarrow> (exception + unit) \<times> state" where
  "deleteDocument e s did uid =
     (case getDocument s did uid of
        Inl err \<Rightarrow> (Inl err, s)
      | Inr document \<Rightarrow>
          (let s1 = (if truthy (assistantFileId document)
                     then s\<lparr>remoteCalls :=
                              remoteCalls s @ [AssistantDeleteFile (the (assistantFileId document))]\<rparr>
                     else s);
               found = filter (\<lambda>c. documentId c = did) (chunks s1);
               chunkIds = filter (\<lambda>i. i \<noteq> []) (map pineconeId found)
           in case (if length found > 0 \<and> length chunkIds > 0
                    then deleteVectors e chunkIds s1 else (None, s1)) of
                (Some err, s2) \<Rightarrow> (Inl err, s2)
              | (None, s2) \<Rightarrow>
                  (case (if existsSync s2 (docPath document)
                         then unlinkSync s2 (docPath document) else Inr s2) of
                     Inl err \<Rightarrow> (Inl err, s2)
                   | Inr s3 \<Rightarrow>
                       (case (if truthy (textFilePath document)
                                 \<and> existsSync s3 (the (textFilePath document))
                              then unlinkSync s3 (the (textFilePath document)) else Inr s3) of
                          Inl err \<Rightarrow> (Inl err, s3)
                        | Inr s4 \<Rightarrow>
                            (Inr (),
                             s4\<lparr>documents := filter (\<lambda>d. docId d \<noteq> did) (documents s4),
                                chunks := filter (\<lambda>c. documentId c \<noteq> did) (chunks s4)\<rparr>)))))"

text \<open>
  \<open>reprocessDocument\<close> up to its return; the chunks it loads are not used, the loop that
  deleted them is commented out in the source. The pipeline it starts is
  \<open>backgroundProcess\<close>.
\<close>

definition reprocessDocument ::
  "env \<Rightarrow> state \<Rightarrow> jsstring \<Rightarrow> jsstring \<Rightarrow> (exception + Document) \<times> state" where
  "reprocessDocument e s did uid =
     (case getDocument s did uid of
        Inl err \<Rightarrow> (Inl err, s)
      | Inr document \<Rightarrow>
          (let found = filter (\<lambda>c. documentId c = did) (chunks s);
               document' = document\<lparr>status := StatusProcessing\<rparr>;
               s1 = s\<lparr>documents :=
                        map (\<lambda>d. if docId d = docId document' then document' else d) (documents s)\<rparr>
           in (Inr document', s1)))"

definition statusOf :: "state \<Rightarrow> jsstring \<Rightarrow> (documentStatus \<times> jsstring option) option" where
  "statusOf s did =
     map_option (\<lambda>d. (status d, errorMessage d)) (find (\<lambda>d. docId d = did) (documents s))"


text \<open>The path of the text file \<open>processDocument\<close> writes, and the records it upserts
  when the extractor returned \<open>parsed\<close>.\<close>

definition textPathOf :: "env \<Rightarrow> jsstring \<Rightarrow> jsstring" where
  "textPathOf e did = pathJoin e (configGet (UPLOAD_PATH e) (js ''./uploads'')) (did @ js ''-text.txt'')"

definition pipelineChunks :: "env \<Rightarrow> jsstring \<Rightarrow> jsstring list" where
  "pipelineChunks e parsed = splitIntoChunks e (cleanTextLineBreaks parsed) 1000"

definition pipelineData :: "env \<Rightarrow> jsstring \<Rightarrow> Document \<Rightarrow> jsstring \<Rightarrow> VectorItem list" where
  "pipelineData e did d parsed = vectorData e did d (pipelineChunks e parsed)"

fun isDeleteCall :: "remoteCall \<Rightarrow> bool" where
  "isDeleteCall (DeleteMany n u ids) = True"
| "isDeleteCall _ = False"


section \<open>A concrete environment and concrete inputs\<close>

text \<open>
  An environment in which every collaborator answers, the semantic chunker of the
  assistant is unavailable (so the fallback chunker runs), and both indexes are configured.
\<close>

definition exampleEnv :: env where
  "exampleEnv =
     \<lparr>UPLOAD_PATH = None,
      PINECONE_INDEX_NAME = None,
      PINECONE_INDEX_URL = Some (js ''https://multy.example''),
      PINECONE_INDEX_NAME_AIR = None,
      PINECONE_INDEX_URL_AIR = Some (js ''https://air.example''),
      sha256hex = (\<lambda>bytes. map ucast bytes),
      pathJoin = (\<lambda>a b. a @ js ''/'' @ b),
      dateNow = 17,
      toISOString = (\<lambda>i. js ''2025-01-01T00:00:00.000Z''),
      uuid = (\<lambda>n. js ''id'' @ numberToString n),
      decodeFilename = (\<lambda>n. n),
      writeFileError = (\<lambda>p. None),
      parseFile = (\<lambda>p t. Inr (js ''Hello world.'')),
      geminiChunking = (\<lambda>t n. Inl (JsError (js ''unavailable''))),
      assistantUploadFile = (\<lambda>p. Inr (js ''file1'')),
      assistantDeleteFile = (\<lambda>i. None),
      upsertRecords = (\<lambda>n u v. None),
      deleteMany = (\<lambda>n u ids. None),
      searchRecords = (\<lambda>n u t. Inr [])\<rparr>"

text \<open>The same environment with the second index refusing every upsert.\<close>

definition failingEnv :: env where
  "failingEnv =
     exampleEnv\<lparr>upsertRecords :=
       (\<lambda>n u v. if n = js ''air'' then Some (JsError (js ''index unreachable'')) else None)\<rparr>"

text \<open>
  The same environment with the default index given the name that the second index has
  when none is configured.
\<close>

definition collidingEnv :: env where
  "collidingEnv = exampleEnv\<lparr>PINECONE_INDEX_NAME := Some (js ''air'')\<rparr>"

text \<open>The double that \<open>1 / 3\<close> evaluates to: \<open>6004799503160661 / 2^54\<close>.\<close>

definition oneThird :: rat where
  "oneThird = 6004799503160661 / 18014398509481984"

definition exampleUser :: User where
  "exampleUser = \<lparr>email = js ''ann@example.org'', name = js ''Ann''\<rparr>"

definition emptyState :: state where
  "emptyState =
     \<lparr>documents = [], chunks = [],
      users = (\<lambda>u. if u = js ''u1'' then Some exampleUser else None),
      files = (\<lambda>p. None), directories = {}, remoteCalls = [], generated = 0\<rparr>"

definition exampleFile :: MulterFile where
  "exampleFile =
     \<lparr>originalname = js ''a.txt'', mimetype = js ''text/plain'', fileSize = 3,
      buffer = [0x61, 0x62, 0x63]\<rparr>"

text \<open>The same bytes under another name, sent by another user.\<close>

definition sameContentFile :: MulterFile where
  "sameContentFile = exampleFile\<lparr>originalname := js ''copy.txt''\<rparr>"

text \<open>
  A state with one document of user \<open>u1\<close> that is \<open>ready\<close>, its backing files and its one
  chunk: what uploading \<open>exampleFile\<close> and running its pipeline leave behind.
\<close>

definition exampleDocument :: Document where
  "exampleDocument =
     \<lparr>docId = js ''id0'', docName = js ''a.txt'', docType = js ''text/plain'', docSize = 3,
      docPath = js ''./uploads/17-a.txt'',
      textFilePath = Some (js ''./uploads/id0-text.txt''),
      assistantFileId = Some (js ''file1''),
      fileHash = Some [0x61, 0x62, 0x63],
      status = StatusReady, errorMessage = None, userId = js ''u1'', categoryId = None\<rparr>"

definition exampleChunk :: Chunk where
  "exampleChunk =
     \<lparr>chunkId = js ''id1'', documentId = js ''id0'', content = js ''Hello world.'',
      chunkIndex = 0, pineconeId = js ''id0_chunk_0''\<rparr>"

definition readyState :: state where
  "readyState =
     \<lparr>documents = [exampleDocument], chunks = [exampleChunk],
      users = (\<lambda>u. if u = js ''u1'' then Some exampleUser else None),
      files = (\<lambda>p. if p = js ''./uploads/17-a.txt'' then Some (Bytes [0x61, 0x62, 0x63])
                   else if p = js ''./uploads/id0-text.txt'' then Some (Utf8Text (js ''Hello world.''))
                   else None),
      directories = {js ''./uploads''}, remoteCalls = [], generated = 2\<rparr>"

text \<open>An environment whose semantic chunker answers with the whole text as one chunk.\<close>

definition geminiEnv :: env where
  "geminiEnv = exampleEnv\<lparr>geminiChunking := (\<lambda>t n. Inr [t])\<rparr>"

text \<open>An environment whose text extractor rejects every file.\<close>

definition unreadableEnv :: env where
  "unreadableEnv =
     exampleEnv\<lparr>parseFile := (\<lambda>p t. Inl (BadRequestException (js ''Unsupported file type'')))\<rparr>"

definition exampleItem :: VectorItem where
  "exampleItem = \<lparr>itemId = js ''id0_chunk_0'', itemText = js ''Hello world.'', itemCategory = js ''{}''\<rparr>"

text \<open>A document whose backing files are gone: no text file, and no file at its path.\<close>

definition exampleOrphan :: Document where
  "exampleOrphan = exampleDocument\<lparr>docPath := js ''./uploads/gone.txt'', textFilePath := None\<rparr>"

definition orphanState :: state where
  "orphanState = readyState\<lparr>documents := [exampleOrphan], chunks := []\<rparr>"


section \<open>Properties of the vector store synchronizer\<close>

lemma upsertAccepted_pair:
  "upsertAccepted e v (k, ix) \<longleftrightarrow> upsertRecords e (indexName ix) (indexUrl ix) v = None"
  by (simp add: upsertAccepted_def)

lemma upsertLoop_frame:
  "upsertLoop e v ixs s = (r, s') \<Longrightarrow> \<exists>calls. s' = s\<lparr>remoteCalls := calls\<rparr>"
proof (induction ixs arbitrary: s)
  case Nil
  then have "s' = s\<lparr>remoteCalls := remoteCalls s\<rparr>" by simp
  then show ?case by blast
next
  case (Cons p ixs)
  obtain k ix where p: "p = (k, ix)" by (cases p)
  let ?s1 = "s\<lparr>remoteCalls := remoteCalls s @ [UpsertRecords (indexName ix) (indexUrl ix) v]\<rparr>"
  show ?case
  proof (cases "upsertRecords e (indexName ix) (indexUrl ix) v")
    case None
    with Cons.prems p have "upsertLoop e v ixs ?s1 = (r, s')"
      by (simp add: Let_def)
    from Cons.IH [OF this] obtain calls where "s' = ?s1\<lparr>remoteCalls := calls\<rparr>" by blast
    then have "s' = s\<lparr>remoteCalls := calls\<rparr>" by simp
    then show ?thesis by blast
  next
    case (Some err)
    with Cons.prems p have "s' = ?s1" by (simp add: Let_def)
    then show ?thesis by blast
  qed
qed

lemma upsertLoop_all_accepted:
  "list_all (upsertAccepted e v) ixs \<Longrightarrow>
   upsertLoop e v ixs s = (None, s\<lparr>remoteCalls := remoteCalls s @ map (upsertCall v) ixs\<rparr>)"
proof (induction ixs arbitrary: s)
  case Nil
  then show ?case by simp
next
  case (Cons p ixs)
  obtain k ix where p: "p = (k, ix)" by (cases p)
  from Cons.prems p have acc: "upsertRecords e (indexName ix) (indexUrl ix) v = None"
    and rest: "list_all (upsertAccepted e v) ixs"
    by (simp_all add: upsertAccepted_pair)
  show ?case
    using Cons.IH [OF rest] acc p by (simp add: Let_def upsertCall_def)
qed

lemma upsertLoop_refused:
  "\<not> list_all (upsertAccepted e v) ixs \<Longrightarrow> \<exists>err s'. upsertLoop e v ixs s = (Some err, s')"
proof (induction ixs arbitrary: s)
  case Nil
  then show ?case by simp
next
  case (Cons p ixs)
  obtain k ix where p: "p = (k, ix)" by (cases p)
  show ?case
  proof (cases "upsertRecords e (indexName ix) (indexUrl ix) v")
    case None
    with Cons.prems p have "\<not> list_all (upsertAccepted e v) ixs"
      by (simp add: upsertAccepted_pair)
    from Cons.IH [OF this] None p show ?thesis by (simp add: Let_def)
  next
    case (Some err)
    with p show ?thesis by (simp add: Let_def)
  qed
qed

lemma set_forIn: "set (forIn ps) = set ps"
  by (auto simp: forIn_def)

lemma list_all_forIn: "list_all P (forIn ps) = list_all P ps"
  by (simp add: list_all_iff set_forIn)

lemma upsertVector_frame:
  assumes "upsertVector e v s = (r, s')"
  shows "\<exists>calls. s' = s\<lparr>remoteCalls := calls\<rparr>"
proof (cases "length (configuredIndexes e) = 0")
  case True
  with assms have "s' = s\<lparr>remoteCalls := remoteCalls s\<rparr>"
    by (simp add: upsertVector_def Let_def)
  then show ?thesis by blast
next
  case False
  obtain r1 s1 where loop: "upsertLoop e v (forIn (configuredIndexes e)) s = (r1, s1)"
    by (cases "upsertLoop e v (forIn (configuredIndexes e)) s")
  with assms False have "s' = s1"
    by (cases r1) (simp_all add: upsertVector_def Let_def)
  with upsertLoop_frame [OF loop] show ?thesis by simp
qed

lemma upsertVector_success:
  assumes "upsertVector e v s = (Inr ids, s')"
  shows "ids = filter (\<lambda>i. i \<noteq> []) (map itemId v)"
    and "list_all (upsertAccepted e v) (configuredIndexes e)"
    and "s' = s\<lparr>remoteCalls := remoteCalls s @ map (upsertCall v) (forIn (configuredIndexes e))\<rparr>"
proof -
  from assms obtain s1 where loop: "upsertLoop e v (forIn (configuredIndexes e)) s = (None, s1)"
    and s1: "s1 = s'" and ids: "ids = filter (\<lambda>i. i \<noteq> []) (map itemId v)"
    unfolding upsertVector_def Let_def
    by (auto split: if_splits prod.splits option.splits)
  show "ids = filter (\<lambda>i. i \<noteq> []) (map itemId v)" by (rule ids)
  have acc: "list_all (upsertAccepted e v) (forIn (configuredIndexes e))"
  proof (rule ccontr)
    assume "\<not> list_all (upsertAccepted e v) (forIn (configuredIndexes e))"
    from upsertLoop_refused [OF this, of s] loop show False by simp
  qed
  then show "list_all (upsertAccepted e v) (configuredIndexes e)"
    by (simp add: list_all_forIn)
  from upsertLoop_all_accepted [OF acc, of s] loop s1
  show "s' = s\<lparr>remoteCalls := remoteCalls s @ map (upsertCall v) (forIn (configuredIndexes e))\<rparr>"
    by simp
qed

lemma upsertVector_refused:
  assumes "\<not> list_all (upsertAccepted e v) (configuredIndexes e)"
  shows "\<exists>err s'. upsertVector e v s = (Inl err, s')"
proof -
  from assms have "configuredIndexes e \<noteq> []" by auto
  moreover from assms have "\<not> list_all (upsertAccepted e v) (forIn (configuredIndexes e))"
    by (simp add: list_all_forIn)
  from upsertLoop_refused [OF this, of s]
  obtain err s' where "upsertLoop e v (forIn (configuredIndexes e)) s = (Some err, s')" by blast
  ultimately show ?thesis by (simp add: upsertVector_def Let_def)
qed

lemma configuredIndexes_default:
  assumes "truthy (PINECONE_INDEX_URL e)"
  shows "configGet (PINECONE_INDEX_NAME e) (js ''air-multy'') \<in> fst ` set (configuredIndexes e)"
  using assms by (auto simp: configuredIndexes_def Let_def)

lemma set_setProperty: "(k, v) \<in> set (setProperty ps k v)"
  by (induction ps) auto

lemma configuredIndexes_air:
  assumes "truthy (PINECONE_INDEX_URL_AIR e)"
  shows "(configGet (PINECONE_INDEX_NAME_AIR e) (js ''air''),
          \<lparr>indexName = configGet (PINECONE_INDEX_NAME_AIR e) (js ''air''),
           indexUrl = the (PINECONE_INDEX_URL_AIR e)\<rparr>) \<in> set (configuredIndexes e)"
  using assms by (simp add: configuredIndexes_def Let_def set_setProperty)


section \<open>Properties of the ingestion pipeline\<close>

lemma find_map_update:
  assumes "\<And>d. docId (g d) = docId d"
  shows "find (\<lambda>d. docId d = did) (map (\<lambda>d. if docId d = did then g d else d) ds)
         = map_option g (find (\<lambda>d. docId d = did) ds)"
  using assms by (induction ds) auto

lemma find_status_update:
  "map_option (\<lambda>d. (status d, errorMessage d))
     (find (\<lambda>d. docId d = did)
        (map (\<lambda>d. if docId d = did then d\<lparr>status := st, errorMessage := Some m\<rparr> else d) ds))
   = map_option (\<lambda>d. (st, Some m)) (find (\<lambda>d. docId d = did) ds)"
  by (induction ds) auto

lemma statusOf_updateDocumentStatus:
  "statusOf (updateDocumentStatus s did st (Some m)) did
   = map_option (\<lambda>d. (st, Some m)) (find (\<lambda>d. docId d = did) (documents s))"
  by (simp add: statusOf_def updateDocumentStatus_def find_status_update cong: if_cong)

lemma chunks_updateDocumentStatus: "chunks (updateDocumentStatus s did st m) = chunks s"
  by (simp add: updateDocumentStatus_def)

text \<open>The document after the update of step 4 of \<open>processDocument\<close>.\<close>

lemma find_after_step4:
  assumes "find (\<lambda>d. docId d = did) (documents s) = Some d"
  shows "find (\<lambda>d. docId d = did)
           (map (\<lambda>d. if docId d = did then d\<lparr>textFilePath := p, assistantFileId := a\<rparr> else d)
                (documents s))
         = Some (d\<lparr>textFilePath := p, assistantFileId := a\<rparr>)"
proof -
  have "find (\<lambda>d. docId d = did)
          (map (\<lambda>d. if docId d = did then d\<lparr>textFilePath := p, assistantFileId := a\<rparr> else d)
               (documents s))
        = map_option (\<lambda>d. d\<lparr>textFilePath := p, assistantFileId := a\<rparr>)
            (find (\<lambda>d. docId d = did) (documents s))"
    by (rule find_map_update) simp
  with assms show ?thesis by simp
qed

text \<open>The state in which \<open>processDocument\<close> throws: the chunks are those it started with
  and the document is still there.\<close>

lemma processDocument_failure_state:
  assumes found: "find (\<lambda>d. docId d = did) (documents s) = Some d"
      and fails: "processDocument e s did = (Inl err, s')"
  shows "chunks s' = chunks s \<and> find (\<lambda>d. docId d = did) (documents s') \<noteq> None"
proof (cases "parseFile e (docPath d) (docType d)")
  case (Inl perr)
  with found fails have "s' = s" by (simp add: processDocument_def)
  with found show ?thesis by simp
next
  case (Inr parsed)
  let ?textPath = "pathJoin e (configGet (UPLOAD_PATH e) (js ''./uploads'')) (did @ js ''-text.txt'')"
  show ?thesis
  proof (cases "writeFileError e ?textPath")
    case (Some werr)
    with found fails Inr have "s' = s" by (simp add: processDocument_def Let_def)
    with found show ?thesis by simp
  next
    case None
    let ?fileId = "case assistantUploadFile e ?textPath of Inr i \<Rightarrow> Some i | Inl err \<Rightarrow> None"
    let ?s3 = "s\<lparr>files := (files s)(?textPath \<mapsto> Utf8Text (cleanTextLineBreaks parsed)),
                 remoteCalls := remoteCalls s @ [AssistantUploadFile ?textPath],
                 documents :=
                   map (\<lambda>d. if docId d = did
                            then d\<lparr>textFilePath := Some ?textPath, assistantFileId := ?fileId\<rparr>
                            else d)
                       (documents s)\<rparr>"
    let ?data = "vectorData e did d (splitIntoChunks e (cleanTextLineBreaks parsed) 1000)"
    obtain r s4 where up: "upsertVector e ?data ?s3 = (r, s4)"
      by (cases "upsertVector e ?data ?s3")
    from upsertVector_frame [OF up] obtain calls where s4: "s4 = ?s3\<lparr>remoteCalls := calls\<rparr>"
      by blast
    from fails found Inr None up have "s' = s4"
      by (cases r) (simp_all add: processDocument_def Let_def)
    with s4 have "chunks s' = chunks s"
      and "documents s'
           = map (\<lambda>d. if docId d = did
                      then d\<lparr>textFilePath := Some ?textPath, assistantFileId := ?fileId\<rparr>
                      else d)
                 (documents s)"
      by simp_all
    with find_after_step4 [OF found] show ?thesis by simp
  qed
qed

lemma background_failure:
  assumes found: "find (\<lambda>d. docId d = did) (documents s) = Some d"
      and fails: "processDocument e s did = (Inl err, s')"
  shows "statusOf (backgroundProcess e s did) did = Some (StatusError, Some (messageOf err))"
    and "chunks (backgroundProcess e s did) = chunks s"
proof -
  from processDocument_failure_state [OF found fails]
  obtain d' where "find (\<lambda>d. docId d = did) (documents s') = Some d'" and c: "chunks s' = chunks s"
    by auto
  then show "statusOf (backgroundProcess e s did) did = Some (StatusError, Some (messageOf err))"
    using fails by (simp add: backgroundProcess_def statusOf_updateDocumentStatus)
  show "chunks (backgroundProcess e s did) = chunks s"
    using fails c by (simp add: backgroundProcess_def chunks_updateDocumentStatus)
qed


text \<open>What a run of \<open>processDocument\<close> that returns has done.\<close>

lemma processDocument_success:
  assumes found: "find (\<lambda>d. docId d = did) (documents s) = Some d"
      and ok: "processDocument e s did = (Inr u, s')"
  shows "\<exists>parsed ids.
           parseFile e (docPath d) (docType d) = Inr parsed
         \<and> writeFileError e (textPathOf e did) = None
         \<and> list_all (upsertAccepted e (pipelineData e did d parsed)) (configuredIndexes e)
         \<and> chunks s' = chunks s
              @ chunkEntities e (generated s) did d (pipelineChunks e parsed) ids
         \<and> files s' = (files s)(textPathOf e did \<mapsto> Utf8Text (cleanTextLineBreaks parsed))
         \<and> remoteCalls s' = remoteCalls s @ [AssistantUploadFile (textPathOf e did)]
              @ map (upsertCall (pipelineData e did d parsed)) (forIn (configuredIndexes e))"
proof (cases "parseFile e (docPath d) (docType d)")
  case (Inl perr)
  with found ok show ?thesis by (simp add: processDocument_def)
next
  case (Inr parsed)
  let ?textPath = "pathJoin e (configGet (UPLOAD_PATH e) (js ''./uploads'')) (did @ js ''-text.txt'')"
  have tp: "textPathOf e did = ?textPath" by (simp add: textPathOf_def)
  show ?thesis
  proof (cases "writeFileError e ?textPath")
    case (Some werr)
    with found ok Inr show ?thesis by (simp add: processDocument_def Let_def)
  next
    case None
    let ?fileId = "case assistantUploadFile e ?textPath of Inr i \<Rightarrow> Some i | Inl err \<Rightarrow> None"
    let ?s3 = "s\<lparr>files := (files s)(?textPath \<mapsto> Utf8Text (cleanTextLineBreaks parsed)),
                 remoteCalls := remoteCalls s @ [AssistantUploadFile ?textPath],
                 documents :=
                   map (\<lambda>d. if docId d = did
                            then d\<lparr>textFilePath := Some ?textPath, assistantFileId := ?fileId\<rparr>
                            else d)
                       (documents s)\<rparr>"
    let ?texts = "splitIntoChunks e (cleanTextLineBreaks parsed) 1000"
    let ?data = "vectorData e did d ?texts"
    have pd: "pipelineData e did d parsed = ?data" "pipelineChunks e parsed = ?texts"
      by (simp_all add: pipelineData_def pipelineChunks_def)
    obtain r s4 where up: "upsertVector e ?data ?s3 = (r, s4)"
      by (cases "upsertVector e ?data ?s3")
    show ?thesis
    proof (cases r)
      case (Inl uerr)
      with found ok Inr None up show ?thesis by (simp add: processDocument_def Let_def)
    next
      case (Inr ids)
      with up have up': "upsertVector e ?data ?s3 = (Inr ids, s4)" by simp
      note succ = upsertVector_success [OF up']
      from found ok \<open>parseFile e (docPath d) (docType d) = Inr parsed\<close> None up'
      have s': "s' = updateDocumentStatus
                       (s4\<lparr>chunks := chunks s4 @ chunkEntities e (generated s4) did d ?texts ids,
                            generated := generated s4
                              + length (chunkEntities e (generated s4) did d ?texts ids)\<rparr>)
                       did StatusReady None"
        by (simp add: processDocument_def Let_def)
      have "chunks s' = chunks s @ chunkEntities e (generated s) did d ?texts ids"
        by (subst s', subst (1 2) succ(3)) (simp add: updateDocumentStatus_def)
      moreover have "files s' = (files s)(?textPath \<mapsto> Utf8Text (cleanTextLineBreaks parsed))"
        by (subst s', subst succ(3)) (simp add: updateDocumentStatus_def)
      moreover have "remoteCalls s' = remoteCalls s @ [AssistantUploadFile ?textPath]
                       @ map (upsertCall ?data) (forIn (configuredIndexes e))"
        by (subst s', subst succ(3)) (simp add: updateDocumentStatus_def)
      ultimately have "parseFile e (docPath d) (docType d) = Inr parsed
         \<and> writeFileError e (textPathOf e did) = None
         \<and> list_all (upsertAccepted e (pipelineData e did d parsed)) (configuredIndexes e)
         \<and> chunks s' = chunks s
              @ chunkEntities e (generated s) did d (pipelineChunks e parsed) ids
         \<and> files s' = (files s)(textPathOf e did \<mapsto> Utf8Text (cleanTextLineBreaks parsed))
         \<and> remoteCalls s' = remoteCalls s @ [AssistantUploadFile (textPathOf e did)]
              @ map (upsertCall (pipelineData e did d parsed)) (forIn (configuredIndexes e))"
        using \<open>parseFile e (docPath d) (docType d) = Inr parsed\<close> None succ(2)
        by (simp add: tp pd)
      then show ?thesis by blast
    qed
  qed
qed

lemma map_content_chunkEntities:
  "map content (chunkEntities e n did d texts ids) = texts"
  by (simp add: chunkEntities_def comp_def map_nth)


lemma upsertVector_accepted:
  assumes "list_all (upsertAccepted e v) (configuredIndexes e)" and "configuredIndexes e \<noteq> []"
  shows "upsertVector e v s
         = (Inr (filter (\<lambda>i. i \<noteq> []) (map itemId v)),
            s\<lparr>remoteCalls := remoteCalls s @ map (upsertCall v) (forIn (configuredIndexes e))\<rparr>)"
proof -
  from assms(1) have "list_all (upsertAccepted e v) (forIn (configuredIndexes e))"
    by (simp add: list_all_forIn)
  from upsertLoop_all_accepted [OF this, of s] assms(2) show ?thesis
    by (simp add: upsertVector_def Let_def)
qed

text \<open>When every stage answers, \<open>processDocument\<close> returns and has saved one chunk per text.\<close>

lemma processDocument_runs:
  assumes found: "find (\<lambda>d. docId d = did) (documents s) = Some d"
      and parse: "parseFile e (docPath d) (docType d) = Inr parsed"
      and wfile: "writeFileError e (textPathOf e did) = None"
      and accepted: "list_all (upsertAccepted e (pipelineData e did d parsed)) (configuredIndexes e)"
      and configured: "configuredIndexes e \<noteq> []"
  shows "\<exists>s'. processDocument e s did = (Inr (), s')
            \<and> chunks s' = chunks s
                 @ chunkEntities e (generated s) did d (pipelineChunks e parsed)
                     (filter (\<lambda>i. i \<noteq> []) (map itemId (pipelineData e did d parsed)))
            \<and> remoteCalls s' = remoteCalls s @ [AssistantUploadFile (textPathOf e did)]
                 @ map (upsertCall (pipelineData e did d parsed)) (forIn (configuredIndexes e))"
proof -
  note wfile' = wfile [unfolded textPathOf_def]
  note up = upsertVector_accepted [OF accepted [unfolded pipelineData_def pipelineChunks_def] configured]
  show ?thesis
    unfolding textPathOf_def pipelineData_def pipelineChunks_def
    using found parse wfile'
    by (simp add: processDocument_def Let_def up updateDocumentStatus_def)
qed

lemma processDocument_upsert_refused:
  assumes found: "find (\<lambda>d. docId d = did) (documents s) = Some d"
      and parse: "parseFile e (docPath d) (docType d) = Inr parsed"
      and wfile: "writeFileError e (textPathOf e did) = None"
      and refused: "\<not> list_all (upsertAccepted e (pipelineData e did d parsed)) (configuredIndexes e)"
  shows "\<exists>err s'. processDocument e s did = (Inl err, s')"
proof -
  let ?textPath = "pathJoin e (configGet (UPLOAD_PATH e) (js ''./uploads'')) (did @ js ''-text.txt'')"
  let ?s3 = "s\<lparr>files := (files s)(?textPath \<mapsto> Utf8Text (cleanTextLineBreaks parsed)),
               remoteCalls := remoteCalls s @ [AssistantUploadFile ?textPath],
               documents :=
                 map (\<lambda>d. if docId d = did
                          then d\<lparr>textFilePath := Some ?textPath,
                                assistantFileId :=
                                  (case assistantUploadFile e ?textPath of
                                     Inr i \<Rightarrow> Some i | Inl err \<Rightarrow> None)\<rparr>
                          else d)
                     (documents s)\<rparr>"
  note wfile' = wfile [unfolded textPathOf_def]
  from upsertVector_refused [OF refused [unfolded pipelineData_def pipelineChunks_def], of ?s3]
  obtain err s4
    where "upsertVector e (vectorData e did d (splitIntoChunks e (cleanTextLineBreaks parsed) 1000)) ?s3
           = (Inl err, s4)"
    by blast
  with found parse wfile' show ?thesis
    by (simp add: processDocument_def Let_def)
qed

lemma find_append_none: "find P xs = None \<Longrightarrow> find P (xs @ ys) = find P ys"
  by (induction xs) (auto split: if_splits)


text \<open>The loop stops at the first index that refuses, with the exception of that index.\<close>

lemma upsertLoop_first_refusal:
  assumes "list_all (upsertAccepted e v) before"
    and "upsertRecords e (indexName ix) (indexUrl ix) v = Some err"
  shows "upsertLoop e v (before @ (k, ix) # after) s
         = (Some err, s\<lparr>remoteCalls := remoteCalls s @ map (upsertCall v) (before @ [(k, ix)])\<rparr>)"
  using assms(1)
proof (induction before arbitrary: s)
  case Nil
  with assms(2) show ?case by (simp add: Let_def upsertCall_def)
next
  case (Cons p before)
  obtain k' ix' where p: "p = (k', ix')" by (cases p)
  from Cons.prems p have acc: "upsertRecords e (indexName ix') (indexUrl ix') v = None"
    and rest: "list_all (upsertAccepted e v) before"
    by (simp_all add: upsertAccepted_pair)
  show ?case
    using Cons.IH [OF rest] acc p by (simp add: Let_def upsertCall_def)
qed

lemma upsertVector_first_refusal:
  assumes order: "forIn (configuredIndexes e) = before @ (k, ix) # after"
    and accepted: "list_all (upsertAccepted e v) before"
    and refused: "upsertRecords e (indexName ix) (indexUrl ix) v = Some err"
  shows "upsertVector e v s
         = (Inl err, s\<lparr>remoteCalls := remoteCalls s @ map (upsertCall v) (before @ [(k, ix)])\<rparr>)"
proof -
  have "(k, ix) \<in> set (forIn (configuredIndexes e))" by (simp add: order)
  then have "(k, ix) \<in> set (configuredIndexes e)" by (simp add: set_forIn)
  then have "configuredIndexes e \<noteq> []" by auto
  with upsertLoop_first_refusal [OF accepted refused, of k after s] order
  show ?thesis by (simp add: upsertVector_def Let_def)
qed

lemma upsertVector_unconfigured:
  assumes "configuredIndexes e = []"
  shows "upsertVector e v s
         = (Inl (JsError (js ''At least one Pinecone index URL must be configured'')), s)"
  using assms by (simp add: upsertVector_def Let_def)

text \<open>The table \<open>indexes\<close> for each configuration of the two URLs and the two names.\<close>

lemma configuredIndexes_table:
  fixes e
  defines "dn \<equiv> configGet (PINECONE_INDEX_NAME e) (js ''air-multy'')"
    and "an \<equiv> configGet (PINECONE_INDEX_NAME_AIR e) (js ''air'')"
  shows "truthy (PINECONE_INDEX_URL e) \<Longrightarrow> truthy (PINECONE_INDEX_URL_AIR e) \<Longrightarrow> dn \<noteq> an \<Longrightarrow>
           configuredIndexes e
           = [(dn, \<lparr>indexName = dn, indexUrl = the (PINECONE_INDEX_URL e)\<rparr>),
              (an, \<lparr>indexName = an, indexUrl = the (PINECONE_INDEX_URL_AIR e)\<rparr>)]"
    and "truthy (PINECONE_INDEX_URL e) \<Longrightarrow> truthy (PINECONE_INDEX_URL_AIR e) \<Longrightarrow> dn = an \<Longrightarrow>
           configuredIndexes e
           = [(an, \<lparr>indexName = an, indexUrl = the (PINECONE_INDEX_URL_AIR e)\<rparr>)]"
    and "truthy (PINECONE_INDEX_URL e) \<Longrightarrow> \<not> truthy (PINECONE_INDEX_URL_AIR e) \<Longrightarrow>
           configuredIndexes e
           = [(dn, \<lparr>indexName = dn, indexUrl = the (PINECONE_INDEX_URL e)\<rparr>)]"
    and "\<not> truthy (PINECONE_INDEX_URL e) \<Longrightarrow> truthy (PINECONE_INDEX_URL_AIR e) \<Longrightarrow>
           configuredIndexes e
           = [(an, \<lparr>indexName = an, indexUrl = the (PINECONE_INDEX_URL_AIR e)\<rparr>)]"
    and "\<not> truthy (PINECONE_INDEX_URL e) \<Longrightarrow> \<not> truthy (PINECONE_INDEX_URL_AIR e) \<Longrightarrow>
           configuredIndexes e = []"
  by (simp_all add: configuredIndexes_def Let_def dn_def an_def)

text \<open>The stages of \<open>processDocument\<close> that throw, each with the exception it throws.\<close>

lemma processDocument_write_refused:
  assumes found: "find (\<lambda>d. docId d = did) (documents s) = Some d"
      and parse: "parseFile e (docPath d) (docType d) = Inr parsed"
      and wfile: "writeFileError e (textPathOf e did) = Some err"
  shows "processDocument e s did = (Inl err, s)"
  using found parse wfile [unfolded textPathOf_def]
  by (simp add: processDocument_def Let_def)

lemma processDocument_first_refusal:
  assumes found: "find (\<lambda>d. docId d = did) (documents s) = Some d"
      and parse: "parseFile e (docPath d) (docType d) = Inr parsed"
      and wfile: "writeFileError e (textPathOf e did) = None"
      and order: "forIn (configuredIndexes e) = before @ (k, ix) # after"
      and accepted: "list_all (upsertAccepted e (pipelineData e did d parsed)) before"
      and refused: "upsertRecords e (indexName ix) (indexUrl ix) (pipelineData e did d parsed) = Some err"
  shows "\<exists>s'. processDocument e s did = (Inl err, s')
           \<and> remoteCalls s' = remoteCalls s @ [AssistantUploadFile (textPathOf e did)]
                @ map (upsertCall (pipelineData e did d parsed)) (before @ [(k, ix)])"
proof -
  note wfile' = wfile [unfolded textPathOf_def]
  note up = upsertVector_first_refusal
    [OF order accepted [unfolded pipelineData_def pipelineChunks_def]
        refused [unfolded pipelineData_def pipelineChunks_def]]
  show ?thesis
    unfolding textPathOf_def pipelineData_def pipelineChunks_def
    using found parse wfile'
    by (simp add: processDocument_def Let_def up)
qed

lemma processDocument_unconfigured:
  assumes found: "find (\<lambda>d. docId d = did) (documents s) = Some d"
      and parse: "parseFile e (docPath d) (docType d) = Inr parsed"
      and wfile: "writeFileError e (textPathOf e did) = None"
      and none: "configuredIndexes e = []"
  shows "\<exists>s'. processDocument e s did
           = (Inl (JsError (js ''At least one Pinecone index URL must be configured'')), s')"
  using found parse wfile [unfolded textPathOf_def]
  by (simp add: processDocument_def Let_def upsertVector_unconfigured [OF none])

text \<open>
  \<open>processDocument\<close> and the detached pipeline change no identifier, owner or hash of a
  document, add and remove no document, and leave the users as they are.
\<close>

lemma processDocument_rows:
  assumes run: "processDocument e s did = (r, s')"
  shows "map (\<lambda>d. (docId d, userId d, fileHash d)) (documents s')
         = map (\<lambda>d. (docId d, userId d, fileHash d)) (documents s)
       \<and> users s' = users s"
proof (cases "find (\<lambda>d. docId d = did) (documents s)")
  case None
  with run have "s' = s" by (simp add: processDocument_def)
  then show ?thesis by simp
next
  case (Some d)
  show ?thesis
  proof (cases "parseFile e (docPath d) (docType d)")
    case (Inl perr)
    with Some run have "s' = s" by (simp add: processDocument_def)
    then show ?thesis by simp
  next
    case (Inr parsed)
    let ?textPath = "pathJoin e (configGet (UPLOAD_PATH e) (js ''./uploads'')) (did @ js ''-text.txt'')"
    show ?thesis
    proof (cases "writeFileError e ?textPath")
      case (Some werr)
      with \<open>find (\<lambda>d. docId d = did) (documents s) = Some d\<close> run Inr have "s' = s"
        by (simp add: processDocument_def Let_def)
      then show ?thesis by simp
    next
      case None
      let ?fileId = "case assistantUploadFile e ?textPath of Inr i \<Rightarrow> Some i | Inl err \<Rightarrow> None"
      let ?s3 = "s\<lparr>files := (files s)(?textPath \<mapsto> Utf8Text (cleanTextLineBreaks parsed)),
                   remoteCalls := remoteCalls s @ [AssistantUploadFile ?textPath],
                   documents :=
                     map (\<lambda>d. if docId d = did
                              then d\<lparr>textFilePath := Some ?textPath, assistantFileId := ?fileId\<rparr>
                              else d)
                         (documents s)\<rparr>"
      let ?texts = "splitIntoChunks e (cleanTextLineBreaks parsed) 1000"
      let ?data = "vectorData e did d ?texts"
      obtain r4 s4 where up: "upsertVector e ?data ?s3 = (r4, s4)"
        by (cases "upsertVector e ?data ?s3")
      from upsertVector_frame [OF up] obtain calls where s4: "s4 = ?s3\<lparr>remoteCalls := calls\<rparr>"
        by blast
      have keys3: "map (\<lambda>d. (docId d, userId d, fileHash d)) (documents s4)
                   = map (\<lambda>d. (docId d, userId d, fileHash d)) (documents s)"
        and users3: "users s4 = users s"
        by (simp_all add: s4 comp_def cong: if_cong)
      show ?thesis
      proof (cases r4)
        case (Inl uerr)
        with \<open>find (\<lambda>d. docId d = did) (documents s) = Some d\<close> run Inr None up have "s' = s4"
          by (simp add: processDocument_def Let_def)
        with keys3 users3 show ?thesis by simp
      next
        case (Inr ids)
        with \<open>find (\<lambda>d. docId d = did) (documents s) = Some d\<close> run
          \<open>parseFile e (docPath d) (docType d) = Inr parsed\<close> None up
        have s': "s' = updateDocumentStatus
                         (s4\<lparr>chunks := chunks s4 @ chunkEntities e (generated s4) did d ?texts ids,
                              generated := generated s4
                                + length (chunkEntities e (generated s4) did d ?texts ids)\<rparr>)
                         did StatusReady None"
          by (simp add: processDocument_def Let_def)
        have "map (\<lambda>d. (docId d, userId d, fileHash d)) (documents s')
              = map (\<lambda>d. (docId d, userId d, fileHash d)) (documents s4)"
          by (simp add: s' updateDocumentStatus_def comp_def cong: if_cong)
        moreover have "users s' = users s4" by (simp add: s' updateDocumentStatus_def)
        ultimately show ?thesis using keys3 users3 by simp
      qed
    qed
  qed
qed

lemma backgroundProcess_rows:
  "map (\<lambda>d. (docId d, userId d, fileHash d)) (documents (backgroundProcess e s did))
   = map (\<lambda>d. (docId d, userId d, fileHash d)) (documents s)
   \<and> users (backgroundProcess e s did) = users s"
proof -
  obtain r s' where run: "processDocument e s did = (r, s')"
    by (cases "processDocument e s did")
  note rows = processDocument_rows [OF run]
  show ?thesis
  proof (cases r)
    case (Inl err)
    with run have "backgroundProcess e s did = updateDocumentStatus s' did StatusError (Some (messageOf err))"
      by (simp add: backgroundProcess_def)
    moreover have "map (\<lambda>d. (docId d, userId d, fileHash d))
                     (documents (updateDocumentStatus s' did StatusError (Some (messageOf err))))
                   = map (\<lambda>d. (docId d, userId d, fileHash d)) (documents s')"
      by (simp add: updateDocumentStatus_def comp_def cong: if_cong)
    moreover have "users (updateDocumentStatus s' did StatusError (Some (messageOf err))) = users s'"
      by (simp add: updateDocumentStatus_def)
    ultimately show ?thesis using rows by simp
  next
    case (Inr u)
    with run have "backgroundProcess e s did = s'" by (simp add: backgroundProcess_def)
    with rows show ?thesis by simp
  qed
qed

lemma find_hash_same_rows:
  assumes "map (\<lambda>d. (docId d, userId d, fileHash d)) ds'
           = map (\<lambda>d. (docId d, userId d, fileHash d)) ds"
    and "find (\<lambda>x. fileHash x = Some h) ds = Some d"
  shows "\<exists>d'. find (\<lambda>x. fileHash x = Some h) ds' = Some d'
           \<and> docId d' = docId d \<and> userId d' = userId d \<and> fileHash d' = fileHash d"
  using assms
proof (induction ds arbitrary: ds')
  case Nil
  then show ?case by simp
next
  case (Cons x xs)
  from Cons.prems(1) obtain y ys where ds': "ds' = y # ys"
    and head: "docId y = docId x" "userId y = userId x" "fileHash y = fileHash x"
    and tail: "map (\<lambda>d. (docId d, userId d, fileHash d)) ys
               = map (\<lambda>d. (docId d, userId d, fileHash d)) xs"
    by (cases ds') auto
  show ?case
  proof (cases "fileHash x = Some h")
    case True
    with Cons.prems(2) have "d = x" by simp
    with True head ds' show ?thesis by simp
  next
    case False
    with Cons.prems(2) have "find (\<lambda>x. fileHash x = Some h) xs = Some d" by simp
    from Cons.IH [OF tail this] False head ds' show ?thesis by simp
  qed
qed

text \<open>An upload of bytes whose hash a stored document carries: the conflict, and no change.\<close>

lemma uploadDocument_conflict:
  assumes "find (\<lambda>x. fileHash x = Some (sha256hex e (buffer f))) (documents s) = Some d"
  shows "\<exists>s2. uploadDocument e s f u
           = (Inl (ConflictException
                     \<lparr>conflictMessage = js ''Document with the same content already exists'',
                      existingDocument =
                        \<lparr>viewDocument = d,
                         uploadedBy = Some
                           \<lparr>uploaderEmail =
                              (case users s (userId d) of
                                 None \<Rightarrow> None
                               | Some usr \<Rightarrow> if email usr = [] then None else Some (email usr)),
                            uploaderName =
                              (case users s (userId d) of
                                 None \<Rightarrow> None
                               | Some usr \<Rightarrow> if name usr = [] then None else Some (name usr))\<rparr>\<rparr>\<rparr>),
              s2)
          \<and> documents s2 = documents s \<and> chunks s2 = chunks s \<and> files s2 = files s
          \<and> remoteCalls s2 = remoteCalls s \<and> users s2 = users s"
proof -
  let ?up = "configGet (UPLOAD_PATH e) (js ''./uploads'')"
  let ?sb = "if \<not> existsSync s ?up then s\<lparr>directories := insert ?up (directories s)\<rparr> else s"
  have f: "find (\<lambda>x. fileHash x = Some (sha256hex e (buffer f))) (documents ?sb) = Some d"
    using assms by simp
  have u: "users ?sb = users s" by simp
  have "uploadDocument e s f u
        = (Inl (ConflictException
                  \<lparr>conflictMessage = conflictText, existingDocument = withUploader ?sb d\<rparr>), ?sb)"
    unfolding uploadDocument_def Let_def using f by simp
  moreover have "withUploader ?sb d
      = \<lparr>viewDocument = d,
         uploadedBy = Some
           \<lparr>uploaderEmail =
              (case users s (userId d) of
                 None \<Rightarrow> None
               | Some usr \<Rightarrow> if email usr = [] then None else Some (email usr)),
            uploaderName =
              (case users s (userId d) of
                 None \<Rightarrow> None
               | Some usr \<Rightarrow> if name usr = [] then None else Some (name usr))\<rparr>\<rparr>"
    unfolding withUploader_def uploaderOf_def u ..
  moreover have "conflictText = js ''Document with the same content already exists''"
    by (simp add: conflictText_def)
  ultimately show ?thesis by auto
qed

text \<open>What a successful upload stores.\<close>

lemma uploadDocument_stores:
  assumes first: "uploadDocument e s f u = (Inr v, s1)"
  shows "\<exists>d. documents s1 = documents s @ [d] \<and> userId d = u
           \<and> fileHash d = Some (sha256hex e (buffer f))
           \<and> status d = StatusProcessing
           \<and> docId d = uuid e (generated s)
           \<and> find (\<lambda>x. fileHash x = Some (sha256hex e (buffer f))) (documents s1) = Some d
           \<and> users s1 = users s \<and> chunks s1 = chunks s"
proof -
  let ?h = "sha256hex e (buffer f)"
  let ?up = "configGet (UPLOAD_PATH e) (js ''./uploads'')"
  let ?sa = "if \<not> existsSync s ?up then s\<lparr>directories := insert ?up (directories s)\<rparr> else s"
  have docs_sa: "documents ?sa = documents s" by simp
  from first have none: "find (\<lambda>d. fileHash d = Some ?h) (documents s) = None"
    unfolding uploadDocument_def Let_def docs_sa
    by (cases "find (\<lambda>d. fileHash d = Some ?h) (documents s)") (simp_all del: find.simps)
  let ?path = "pathJoin e ?up (numberToString (dateNow e) @ js ''-'' @ decodeFilename e (originalname f))"
  from first none have wr: "writeFileError e ?path = None"
    unfolding uploadDocument_def Let_def docs_sa
    by (cases "writeFileError e ?path") simp_all
  let ?d = "\<lparr>docId = uuid e (generated ?sa), docName = decodeFilename e (originalname f),
             docType = mimetype f, docSize = fileSize f, docPath = ?path,
             textFilePath = None, assistantFileId = None, fileHash = Some ?h,
             status = StatusProcessing, errorMessage = None, userId = u, categoryId = None\<rparr>"
  from first none wr have docs1: "documents s1 = documents s @ [?d]"
    and users1: "users s1 = users s" and chunks1: "chunks s1 = chunks s"
    unfolding uploadDocument_def Let_def docs_sa
    by (auto split: option.splits if_splits)
  have f: "find (\<lambda>d. fileHash d = Some ?h) (documents s1) = Some ?d"
    using find_append_none [OF none, of "[?d]"] by (simp add: docs1)
  have "generated ?sa = generated s" by simp
  with docs1 users1 chunks1 f show ?thesis by auto
qed



section \<open>The claims about the orchestrator and the synchronizer\<close>

text \<open>
  C1. When a file has been uploaded, the upload has stored one new document, the last row
  of the table, with the hash of the bytes and the uploader as owner. From then on a second
  upload with the same bytes (under any name, by any user) fails with the conflict
  exception \<open>Document with the same content already exists\<close>: in the state the first upload
  left, in the state after the detached pipeline of that document has run (whether it
  ended \<open>ready\<close> or \<open>error\<close>), and in every state whose documents have the same identifiers,
  owners and hashes. The response carries the stored document, which has the identifier and
  the owner of the first upload, together with the email and the name of the first
  uploader (each \<open>null\<close> when the user is unknown or the value is empty). More generally, in
  any state the upload of bytes whose hash a stored document carries is refused with that
  document and the email and name of its owner. The failing call leaves the documents, the
  chunks, the files and the remote services as they were.
\<close>

theorem duplicate_upload_is_rejected:
  assumes first: "uploadDocument e s f1 u1 = (Inr v1, s1)"
      and same: "buffer f2 = buffer f1"
      and hash: "sha256hex e2 = sha256hex e"
  shows "\<exists>d. documents s1 = documents s @ [d]
            \<and> docId d = uuid e (generated s)
            \<and> userId d = u1
            \<and> fileHash d = Some (sha256hex e (buffer f1))
            \<and> status d = StatusProcessing
            \<and> (\<forall>s'. map (\<lambda>x. (docId x, userId x, fileHash x)) (documents s')
                       = map (\<lambda>x. (docId x, userId x, fileHash x)) (documents s1)
                     \<and> users s' = users s1 \<longrightarrow>
                   (\<exists>d' s2. uploadDocument e2 s' f2 u2
                        = (Inl (ConflictException
                             \<lparr>conflictMessage = js ''Document with the same content already exists'',
                              existingDocument =
                                \<lparr>viewDocument = d',
                                 uploadedBy = Some
                                   \<lparr>uploaderEmail =
                                      (case users s u1 of
                                         None \<Rightarrow> None
                                       | Some usr \<Rightarrow>
                                           if email usr = [] then None else Some (email usr)),
                                    uploaderName =
                                      (case users s u1 of
                                         None \<Rightarrow> None
                                       | Some usr \<Rightarrow>
                                           if name usr = [] then None else Some (name usr))\<rparr>\<rparr>\<rparr>),
                           s2)
                      \<and> d' \<in> set (documents s')
                      \<and> docId d' = docId d \<and> userId d' = u1 \<and> fileHash d' = fileHash d
                      \<and> (s' = s1 \<longrightarrow> d' = d)
                      \<and> documents s2 = documents s' \<and> chunks s2 = chunks s'
                      \<and> files s2 = files s' \<and> remoteCalls s2 = remoteCalls s'))
            \<and> (\<forall>e3 did.
                   map (\<lambda>x. (docId x, userId x, fileHash x)) (documents (backgroundProcess e3 s1 did))
                     = map (\<lambda>x. (docId x, userId x, fileHash x)) (documents s1)
                   \<and> users (backgroundProcess e3 s1 did) = users s1)
            \<and> (\<forall>s' d'. find (\<lambda>x. fileHash x = Some (sha256hex e (buffer f1))) (documents s') = Some d' \<longrightarrow>
                   (\<exists>s2. uploadDocument e2 s' f2 u2
                        = (Inl (ConflictException
                             \<lparr>conflictMessage = js ''Document with the same content already exists'',
                              existingDocument =
                                \<lparr>viewDocument = d',
                                 uploadedBy = Some
                                   \<lparr>uploaderEmail =
                                      (case users s' (userId d') of
                                         None \<Rightarrow> None
                                       | Some usr \<Rightarrow>
                                           if email usr = [] then None else Some (email usr)),
                                    uploaderName =
                                      (case users s' (userId d') of
                                         None \<Rightarrow> None
                                       | Some usr \<Rightarrow>
                                           if name usr = [] then None else Some (name usr))\<rparr>\<rparr>\<rparr>),
                           s2)
                      \<and> documents s2 = documents s' \<and> chunks s2 = chunks s'
                      \<and> files s2 = files s' \<and> remoteCalls s2 = remoteCalls s'))"
proof -
  let ?h = "sha256hex e (buffer f1)"
  from uploadDocument_stores [OF first] obtain d where
      docs: "documents s1 = documents s @ [d]" and id: "docId d = uuid e (generated s)"
    and owner: "userId d = u1" and h: "fileHash d = Some ?h" and st: "status d = StatusProcessing"
    and found: "find (\<lambda>x. fileHash x = Some ?h) (documents s1) = Some d"
    and users1: "users s1 = users s"
    by blast
  have h2: "sha256hex e2 (buffer f2) = ?h" by (simp add: same hash)
  have general: "\<exists>s2. uploadDocument e2 s' f2 u2
                        = (Inl (ConflictException
                             \<lparr>conflictMessage = js ''Document with the same content already exists'',
                              existingDocument =
                                \<lparr>viewDocument = d',
                                 uploadedBy = Some
                                   \<lparr>uploaderEmail =
                                      (case users s' (userId d') of
                                         None \<Rightarrow> None
                                       | Some usr \<Rightarrow>
                                           if email usr = [] then None else Some (email usr)),
                                    uploaderName =
                                      (case users s' (userId d') of
                                         None \<Rightarrow> None
                                       | Some usr \<Rightarrow>
                                           if name usr = [] then None else Some (name usr))\<rparr>\<rparr>\<rparr>),
                           s2)
                      \<and> documents s2 = documents s' \<and> chunks s2 = chunks s'
                      \<and> files s2 = files s' \<and> remoteCalls s2 = remoteCalls s'"
    if "find (\<lambda>x. fileHash x = Some ?h) (documents s') = Some d'" for s' d'
    using uploadDocument_conflict [of e2 f2 s' d' u2] that unfolding h2 by blast
  have later: "\<exists>d' s2. uploadDocument e2 s' f2 u2
                        = (Inl (ConflictException
                             \<lparr>conflictMessage = js ''Document with the same content already exists'',
                              existingDocument =
                                \<lparr>viewDocument = d',
                                 uploadedBy = Some
                                   \<lparr>uploaderEmail =
                                      (case users s u1 of
                                         None \<Rightarrow> None
                                       | Some usr \<Rightarrow>
                                           if email usr = [] then None else Some (email usr)),
                                    uploaderName =
                                      (case users s u1 of
                                         None \<Rightarrow> None
                                       | Some usr \<Rightarrow>
                                           if name usr = [] then None else Some (name usr))\<rparr>\<rparr>\<rparr>),
                           s2)
                      \<and> d' \<in> set (documents s')
                      \<and> docId d' = docId d \<and> userId d' = u1 \<and> fileHash d' = fileHash d
                      \<and> (s' = s1 \<longrightarrow> d' = d)
                      \<and> documents s2 = documents s' \<and> chunks s2 = chunks s'
                      \<and> files s2 = files s' \<and> remoteCalls s2 = remoteCalls s'"
    if rows: "map (\<lambda>x. (docId x, userId x, fileHash x)) (documents s')
                = map (\<lambda>x. (docId x, userId x, fileHash x)) (documents s1)
              \<and> users s' = users s1" for s'
  proof -
    from rows have keys: "map (\<lambda>x. (docId x, userId x, fileHash x)) (documents s')
                = map (\<lambda>x. (docId x, userId x, fileHash x)) (documents s1)"
      and us: "users s' = users s" by (simp_all add: users1)
    from find_hash_same_rows [OF keys found] obtain d' where
        f': "find (\<lambda>x. fileHash x = Some ?h) (documents s') = Some d'"
      and same_row: "docId d' = docId d" "userId d' = userId d" "fileHash d' = fileHash d"
      by blast
    from f' have mem: "d' \<in> set (documents s')"
      by (auto simp: find_Some_iff)
    have at_s1: "s' = s1 \<longrightarrow> d' = d" using f' found by auto
    from general [OF f'] same_row owner us mem at_s1 show ?thesis by auto
  qed
  from docs id owner h st later general backgroundProcess_rows show ?thesis
    by blast
qed

theorem duplicate_upload_is_rejected_witness:
  "\<exists>v1 s1 d' s2.
      uploadDocument exampleEnv emptyState exampleFile (js ''u1'') = (Inr v1, s1)
    \<and> buffer sameContentFile = buffer exampleFile
    \<and> uploadDocument exampleEnv (backgroundProcess exampleEnv s1 (js ''id0'')) sameContentFile (js ''u2'')
        = (Inl (ConflictException
                  \<lparr>conflictMessage = js ''Document with the same content already exists'',
                   existingDocument =
                     \<lparr>viewDocument = d',
                      uploadedBy = Some \<lparr>uploaderEmail = Some (js ''ann@example.org''),
                                         uploaderName = Some (js ''Ann'')\<rparr>\<rparr>\<rparr>), s2)
    \<and> docId d' = js ''id0'' \<and> userId d' = js ''u1''
    \<and> fileHash d' = Some (sha256hex exampleEnv (buffer exampleFile))
    \<and> documents s2 = documents (backgroundProcess exampleEnv s1 (js ''id0''))
    \<and> chunks s2 = chunks (backgroundProcess exampleEnv s1 (js ''id0''))"
proof -
  obtain r s1 where up: "uploadDocument exampleEnv emptyState exampleFile (js ''u1'') = (r, s1)"
    by (cases "uploadDocument exampleEnv emptyState exampleFile (js ''u1'')")
  have "\<exists>v. fst (uploadDocument exampleEnv emptyState exampleFile (js ''u1'')) = Inr v"
    by (simp add: uploadDocument_def exampleEnv_def emptyState_def exampleFile_def Let_def
          configGet_def existsSync_def split: option.split)
  with up obtain v1 where r: "r = Inr v1" by auto
  have same: "buffer sameContentFile = buffer exampleFile"
    by (simp add: sameContentFile_def)
  have id0: "uuid exampleEnv (generated emptyState) = js ''id0''"
    by (simp add: exampleEnv_def emptyState_def numberToString.simps digitChar_def js_def)
  have user: "users emptyState (js ''u1'') = Some exampleUser" by (simp add: emptyState_def)
  have ann: "email exampleUser = js ''ann@example.org''" "name exampleUser = js ''Ann''"
    "js ''ann@example.org'' \<noteq> []" "js ''Ann'' \<noteq> []"
    by (simp_all add: exampleUser_def js_def)
  let ?s' = "backgroundProcess exampleEnv s1 (js ''id0'')"
  from duplicate_upload_is_rejected [OF up [unfolded r] same refl, of "js ''u2''"]
  obtain d where id: "docId d = uuid exampleEnv (generated emptyState)"
    and h: "fileHash d = Some (sha256hex exampleEnv (buffer exampleFile))"
    and later: "\<forall>s'. map (\<lambda>x. (docId x, userId x, fileHash x)) (documents s')
                       = map (\<lambda>x. (docId x, userId x, fileHash x)) (documents s1)
                     \<and> users s' = users s1 \<longrightarrow>
                   (\<exists>d' s2. uploadDocument exampleEnv s' sameContentFile (js ''u2'')
                        = (Inl (ConflictException
                             \<lparr>conflictMessage = js ''Document with the same content already exists'',
                              existingDocument =
                                \<lparr>viewDocument = d',
                                 uploadedBy = Some
                                   \<lparr>uploaderEmail =
                                      (case users emptyState (js ''u1'') of
                                         None \<Rightarrow> None
                                       | Some usr \<Rightarrow>
                                           if email usr = [] then None else Some (email usr)),
                                    uploaderName =
                                      (case users emptyState (js ''u1'') of
                                         None \<Rightarrow> None
                                       | Some usr \<Rightarrow>
                                           if name usr = [] then None else Some (name usr))\<rparr>\<rparr>\<rparr>),
                           s2)
                      \<and> d' \<in> set (documents s')
                      \<and> docId d' = docId d \<and> userId d' = js ''u1'' \<and> fileHash d' = fileHash d
                      \<and> (s' = s1 \<longrightarrow> d' = d)
                      \<and> documents s2 = documents s' \<and> chunks s2 = chunks s'
                      \<and> files s2 = files s' \<and> remoteCalls s2 = remoteCalls s')"
    and rows: "\<forall>e3 did.
                   map (\<lambda>x. (docId x, userId x, fileHash x)) (documents (backgroundProcess e3 s1 did))
                     = map (\<lambda>x. (docId x, userId x, fileHash x)) (documents s1)
                   \<and> users (backgroundProcess e3 s1 did) = users s1"
    by blast
  from rows have "map (\<lambda>x. (docId x, userId x, fileHash x)) (documents ?s')
                    = map (\<lambda>x. (docId x, userId x, fileHash x)) (documents s1)
                  \<and> users ?s' = users s1"
    by blast
  with later obtain d' s2 where
      "uploadDocument exampleEnv ?s' sameContentFile (js ''u2'')
         = (Inl (ConflictException
                   \<lparr>conflictMessage = js ''Document with the same content already exists'',
                    existingDocument =
                      \<lparr>viewDocument = d',
                       uploadedBy = Some
                         \<lparr>uploaderEmail =
                            (case users emptyState (js ''u1'') of
                               None \<Rightarrow> None
                             | Some usr \<Rightarrow> if email usr = [] then None else Some (email usr)),
                          uploaderName =
                            (case users emptyState (js ''u1'') of
                               None \<Rightarrow> None
                             | Some usr \<Rightarrow> if name usr = [] then None else Some (name usr))\<rparr>\<rparr>\<rparr>),
            s2)"
    and "docId d' = docId d" "userId d' = js ''u1''" "fileHash d' = fileHash d"
    and "documents s2 = documents ?s'" "chunks s2 = chunks ?s'"
    by blast
  with up r same id id0 h user ann show ?thesis by auto
qed


text \<open>The concrete environments: both indexes are configured and accept every call.\<close>

lemma configuredIndexes_exampleEnv:
  "configuredIndexes exampleEnv
   = [(js ''air-multy'', \<lparr>indexName = js ''air-multy'', indexUrl = js ''https://multy.example''\<rparr>),
      (js ''air'', \<lparr>indexName = js ''air'', indexUrl = js ''https://air.example''\<rparr>)]"
  by (simp add: configuredIndexes_def exampleEnv_def configGet_def truthy_def js_def Let_def)

lemma forIn_exampleEnv: "forIn (configuredIndexes exampleEnv) = configuredIndexes exampleEnv"
  by (simp add: configuredIndexes_exampleEnv forIn_def arrayIndex_def js_def isDigit_def)

lemma configuredIndexes_geminiEnv: "configuredIndexes geminiEnv = configuredIndexes exampleEnv"
  by (simp add: configuredIndexes_def geminiEnv_def)

lemma configuredIndexes_failingEnv: "configuredIndexes failingEnv = configuredIndexes exampleEnv"
  by (simp add: configuredIndexes_def failingEnv_def)

lemma configuredIndexes_unreadableEnv: "configuredIndexes unreadableEnv = configuredIndexes exampleEnv"
  by (simp add: configuredIndexes_def unreadableEnv_def)

lemma accepted_exampleEnv: "list_all (upsertAccepted exampleEnv v) (configuredIndexes exampleEnv)"
  by (simp add: configuredIndexes_exampleEnv upsertAccepted_def) (simp add: exampleEnv_def)

lemma accepted_geminiEnv: "list_all (upsertAccepted geminiEnv v) (configuredIndexes geminiEnv)"
  by (simp add: configuredIndexes_geminiEnv configuredIndexes_exampleEnv upsertAccepted_def)
     (simp add: exampleEnv_def geminiEnv_def)

lemma refused_failingEnv: "\<not> list_all (upsertAccepted failingEnv v) (configuredIndexes failingEnv)"
  by (simp add: configuredIndexes_failingEnv configuredIndexes_exampleEnv upsertAccepted_def)
     (simp add: exampleEnv_def failingEnv_def)

lemma find_readyState:
  "find (\<lambda>d. docId d = js ''id0'') (documents readyState) = Some exampleDocument"
  by (simp add: readyState_def exampleDocument_def)

lemma pipelineChunks_geminiEnv:
  "pipelineChunks geminiEnv parsed = [cleanTextLineBreaks parsed]"
  by (simp add: pipelineChunks_def splitIntoChunks_def geminiEnv_def)

lemma forIn_failingEnv:
  "forIn (configuredIndexes failingEnv)
   = [(js ''air-multy'', \<lparr>indexName = js ''air-multy'', indexUrl = js ''https://multy.example''\<rparr>)]
     @ (js ''air'', \<lparr>indexName = js ''air'', indexUrl = js ''https://air.example''\<rparr>) # []"
proof -
  have "forIn (configuredIndexes failingEnv) = configuredIndexes exampleEnv"
    by (simp only: configuredIndexes_failingEnv forIn_exampleEnv)
  then show ?thesis by (simp add: configuredIndexes_exampleEnv)
qed

lemma failingEnv_first_accepts:
  "list_all (upsertAccepted failingEnv v)
     [(js ''air-multy'', \<lparr>indexName = js ''air-multy'', indexUrl = js ''https://multy.example''\<rparr>)]"
  by (simp add: upsertAccepted_def failingEnv_def exampleEnv_def js_def)

lemma failingEnv_second_refuses:
  "upsertRecords failingEnv (indexName \<lparr>indexName = js ''air'', indexUrl = js ''https://air.example''\<rparr>)
     (indexUrl \<lparr>indexName = js ''air'', indexUrl = js ''https://air.example''\<rparr>) v
   = Some (JsError (js ''index unreachable''))"
  by (simp add: failingEnv_def exampleEnv_def)

text \<open>
  C2. For a document that exists: whenever \<open>processDocument\<close> throws, whatever the stage,
  the detached pipeline leaves the document with status \<open>error\<close> and the message of the
  exception, and the chunk table as it was. Every stage that can throw makes
  \<open>processDocument\<close> throw its exception: the extraction, the writing of the text file, and
  the upsert, which throws the exception of the first index that refuses the records (or
  its own error when no index is configured). The chunking stage does not throw: when the
  semantic chunker of the assistant fails, the fallback chunker runs. The chunk table
  changes only in a run in which every configured index has accepted the upsert.
\<close>

theorem pipeline_failure_sets_error_status:
  assumes found: "find (\<lambda>d. docId d = did) (documents s) = Some d"
  shows "(\<forall>err s'. processDocument e s did = (Inl err, s') \<longrightarrow>
              statusOf (backgroundProcess e s did) did = Some (StatusError, Some (messageOf err))
            \<and> chunks (backgroundProcess e s did) = chunks s)
       \<and> (\<forall>err. parseFile e (docPath d) (docType d) = Inl err \<longrightarrow>
              processDocument e s did = (Inl err, s))
       \<and> (\<forall>m. parseFile e (docPath d) (docType d) = Inl (BadRequestException m) \<longrightarrow>
              statusOf (backgroundProcess e s did) did = Some (StatusError, Some m)
            \<and> chunks (backgroundProcess e s did) = chunks s)
       \<and> (\<forall>parsed err. parseFile e (docPath d) (docType d) = Inr parsed
              \<and> writeFileError e (textPathOf e did) = Some err \<longrightarrow>
              processDocument e s did = (Inl err, s))
       \<and> (\<forall>parsed. pipelineChunks e parsed
              = (case geminiChunking e (cleanTextLineBreaks parsed) 1000 of
                   Inr result \<Rightarrow> result
                 | Inl err \<Rightarrow> semanticChunking (cleanTextLineBreaks parsed) 1000 zeroPointOne))
       \<and> (\<forall>parsed before k ix after err.
              parseFile e (docPath d) (docType d) = Inr parsed
            \<and> writeFileError e (textPathOf e did) = None
            \<and> forIn (configuredIndexes e) = before @ (k, ix) # after
            \<and> list_all (upsertAccepted e (pipelineData e did d parsed)) before
            \<and> upsertRecords e (indexName ix) (indexUrl ix) (pipelineData e did d parsed) = Some err
            \<longrightarrow> (\<exists>s'. processDocument e s did = (Inl err, s'))
              \<and> statusOf (backgroundProcess e s did) did = Some (StatusError, Some (messageOf err))
              \<and> (\<forall>m. err = JsError m \<longrightarrow>
                    statusOf (backgroundProcess e s did) did = Some (StatusError, Some m))
              \<and> chunks (backgroundProcess e s did) = chunks s)
       \<and> (\<forall>parsed.
              parseFile e (docPath d) (docType d) = Inr parsed
            \<and> writeFileError e (textPathOf e did) = None
            \<and> configuredIndexes e = []
            \<longrightarrow> (\<exists>s'. processDocument e s did
                        = (Inl (JsError (js ''At least one Pinecone index URL must be configured'')), s'))
              \<and> statusOf (backgroundProcess e s did) did
                  = Some (StatusError, Some (js ''At least one Pinecone index URL must be configured''))
              \<and> chunks (backgroundProcess e s did) = chunks s)
       \<and> (chunks (backgroundProcess e s did) \<noteq> chunks s \<longrightarrow>
              (\<exists>parsed. parseFile e (docPath d) (docType d) = Inr parsed
                 \<and> list_all (upsertAccepted e (pipelineData e did d parsed)) (configuredIndexes e)))"
proof (intro conjI allI impI)
  fix err s'
  assume fails: "processDocument e s did = (Inl err, s')"
  from background_failure [OF found fails]
  show "statusOf (backgroundProcess e s did) did = Some (StatusError, Some (messageOf err))"
    and "chunks (backgroundProcess e s did) = chunks s"
    by simp_all
next
  fix err
  assume "parseFile e (docPath d) (docType d) = Inl err"
  with found show "processDocument e s did = (Inl err, s)"
    by (simp add: processDocument_def)
next
  fix m
  assume "parseFile e (docPath d) (docType d) = Inl (BadRequestException m)"
  with found have fails: "processDocument e s did = (Inl (BadRequestException m), s)"
    by (simp add: processDocument_def)
  from background_failure [OF found fails]
  show "statusOf (backgroundProcess e s did) did = Some (StatusError, Some m)"
    and "chunks (backgroundProcess e s did) = chunks s"
    by simp_all
next
  fix parsed err
  assume "parseFile e (docPath d) (docType d) = Inr parsed
              \<and> writeFileError e (textPathOf e did) = Some err"
  with processDocument_write_refused [OF found, of e parsed err]
  show "processDocument e s did = (Inl err, s)" by simp
next
  fix parsed
  show "pipelineChunks e parsed
              = (case geminiChunking e (cleanTextLineBreaks parsed) 1000 of
                   Inr result \<Rightarrow> result
                 | Inl err \<Rightarrow> semanticChunking (cleanTextLineBreaks parsed) 1000 zeroPointOne)"
    by (simp add: pipelineChunks_def splitIntoChunks_def)
next
  fix parsed before k ix after err
  assume h: "parseFile e (docPath d) (docType d) = Inr parsed
            \<and> writeFileError e (textPathOf e did) = None
            \<and> forIn (configuredIndexes e) = before @ (k, ix) # after
            \<and> list_all (upsertAccepted e (pipelineData e did d parsed)) before
            \<and> upsertRecords e (indexName ix) (indexUrl ix) (pipelineData e did d parsed) = Some err"
  from h processDocument_first_refusal [OF found, of e parsed before k ix after err]
  obtain s' where fails: "processDocument e s did = (Inl err, s')" by blast
  then show "\<exists>s'. processDocument e s did = (Inl err, s')" by blast
  from background_failure [OF found fails]
  show st: "statusOf (backgroundProcess e s did) did = Some (StatusError, Some (messageOf err))"
    and "chunks (backgroundProcess e s did) = chunks s"
    by simp_all
  fix m
  assume "err = JsError m"
  with st show "statusOf (backgroundProcess e s did) did = Some (StatusError, Some m)" by simp
next
  fix parsed
  assume h: "parseFile e (docPath d) (docType d) = Inr parsed
            \<and> writeFileError e (textPathOf e did) = None
            \<and> configuredIndexes e = []"
  from h processDocument_unconfigured [OF found, of e parsed]
  obtain s' where fails: "processDocument e s did
      = (Inl (JsError (js ''At least one Pinecone index URL must be configured'')), s')"
    by blast
  then show "\<exists>s'. processDocument e s did
      = (Inl (JsError (js ''At least one Pinecone index URL must be configured'')), s')"
    by blast
  from background_failure [OF found fails]
  show "statusOf (backgroundProcess e s did) did
          = Some (StatusError, Some (js ''At least one Pinecone index URL must be configured''))"
    and "chunks (backgroundProcess e s did) = chunks s"
    by simp_all
next
  assume changed: "chunks (backgroundProcess e s did) \<noteq> chunks s"
  obtain r s' where run: "processDocument e s did = (r, s')"
    by (cases "processDocument e s did")
  show "\<exists>parsed. parseFile e (docPath d) (docType d) = Inr parsed
          \<and> list_all (upsertAccepted e (pipelineData e did d parsed)) (configuredIndexes e)"
  proof (cases r)
    case (Inl err)
    with run background_failure(2) [OF found] changed show ?thesis by blast
  next
    case (Inr u)
    with run processDocument_success [OF found, of e u s'] show ?thesis by blast
  qed
qed

theorem pipeline_failure_sets_error_status_witness:
  "find (\<lambda>d. docId d = js ''id0'') (documents readyState) = Some exampleDocument
   \<and> processDocument unreadableEnv readyState (js ''id0'')
       = (Inl (BadRequestException (js ''Unsupported file type'')), readyState)
   \<and> statusOf (backgroundProcess unreadableEnv readyState (js ''id0'')) (js ''id0'')
       = Some (StatusError, Some (js ''Unsupported file type''))
   \<and> chunks (backgroundProcess unreadableEnv readyState (js ''id0'')) = chunks readyState
   \<and> (\<exists>s'. processDocument failingEnv readyState (js ''id0'')
              = (Inl (JsError (js ''index unreachable'')), s'))
   \<and> statusOf (backgroundProcess failingEnv readyState (js ''id0'')) (js ''id0'')
       = Some (StatusError, Some (js ''index unreachable''))
   \<and> chunks (backgroundProcess failingEnv readyState (js ''id0'')) = chunks readyState
   \<and> chunks (backgroundProcess geminiEnv readyState (js ''id0'')) \<noteq> chunks readyState
   \<and> (\<exists>parsed. parseFile geminiEnv (docPath exampleDocument) (docType exampleDocument) = Inr parsed
         \<and> list_all (upsertAccepted geminiEnv (pipelineData geminiEnv (js ''id0'') exampleDocument parsed))
              (configuredIndexes geminiEnv))"
proof -
  note thm1 = pipeline_failure_sets_error_status [OF find_readyState, of unreadableEnv]
  note thm2 = pipeline_failure_sets_error_status [OF find_readyState, of geminiEnv]
  note thm3 = pipeline_failure_sets_error_status [OF find_readyState, of failingEnv]
  have unreadable: "parseFile unreadableEnv (docPath exampleDocument) (docType exampleDocument)
                    = Inl (BadRequestException (js ''Unsupported file type''))"
    by (simp add: unreadableEnv_def)
  from thm1 unreadable
  have fails: "processDocument unreadableEnv readyState (js ''id0'')
               = (Inl (BadRequestException (js ''Unsupported file type'')), readyState)"
    by blast
  from thm1 unreadable
  have err: "statusOf (backgroundProcess unreadableEnv readyState (js ''id0'')) (js ''id0'')
                    = Some (StatusError, Some (js ''Unsupported file type''))"
    and same: "chunks (backgroundProcess unreadableEnv readyState (js ''id0'')) = chunks readyState"
    by blast+
  have parse3: "parseFile failingEnv (docPath exampleDocument) (docType exampleDocument)
               = Inr (js ''Hello world.'')"
    by (simp add: failingEnv_def exampleEnv_def)
  have wfile3: "writeFileError failingEnv (textPathOf failingEnv (js ''id0'')) = None"
    by (simp add: failingEnv_def exampleEnv_def)
  from thm3 parse3 wfile3 forIn_failingEnv failingEnv_first_accepts failingEnv_second_refuses
  have "(\<exists>s'. processDocument failingEnv readyState (js ''id0'')
                = (Inl (JsError (js ''index unreachable'')), s'))
      \<and> (\<forall>m. JsError (js ''index unreachable'') = JsError m \<longrightarrow>
            statusOf (backgroundProcess failingEnv readyState (js ''id0'')) (js ''id0'')
              = Some (StatusError, Some m))
      \<and> chunks (backgroundProcess failingEnv readyState (js ''id0'')) = chunks readyState"
    by blast
  then have refused: "\<exists>s'. processDocument failingEnv readyState (js ''id0'')
                = (Inl (JsError (js ''index unreachable'')), s')"
    and err3: "statusOf (backgroundProcess failingEnv readyState (js ''id0'')) (js ''id0'')
              = Some (StatusError, Some (js ''index unreachable''))"
    and same3: "chunks (backgroundProcess failingEnv readyState (js ''id0'')) = chunks readyState"
    by blast+
  have parse: "parseFile geminiEnv (docPath exampleDocument) (docType exampleDocument)
               = Inr (js ''Hello world.'')"
    by (simp add: geminiEnv_def exampleEnv_def)
  have wfile: "writeFileError geminiEnv (textPathOf geminiEnv (js ''id0'')) = None"
    by (simp add: geminiEnv_def exampleEnv_def)
  have conf: "configuredIndexes geminiEnv \<noteq> []"
    by (simp add: configuredIndexes_geminiEnv configuredIndexes_exampleEnv)
  from processDocument_runs [OF find_readyState parse wfile accepted_geminiEnv conf]
  obtain s' where run: "processDocument geminiEnv readyState (js ''id0'') = (Inr (), s')"
    and ch: "chunks s' = chunks readyState
               @ chunkEntities geminiEnv (generated readyState) (js ''id0'') exampleDocument
                   (pipelineChunks geminiEnv (js ''Hello world.''))
                   (filter (\<lambda>i. i \<noteq> [])
                      (map itemId (pipelineData geminiEnv (js ''id0'') exampleDocument (js ''Hello world.''))))"
    by blast
  from run ch have changed: "chunks (backgroundProcess geminiEnv readyState (js ''id0'')) \<noteq> chunks readyState"
    by (simp add: backgroundProcess_def pipelineChunks_geminiEnv chunkEntities_def)
  with thm2
  have "\<exists>parsed. parseFile geminiEnv (docPath exampleDocument) (docType exampleDocument) = Inr parsed
          \<and> list_all (upsertAccepted geminiEnv (pipelineData geminiEnv (js ''id0'') exampleDocument parsed))
               (configuredIndexes geminiEnv)"
    by blast
  with find_readyState fails err same refused err3 same3 changed show ?thesis by blast
qed


lemma configuredIndexes_collidingEnv:
  "configuredIndexes collidingEnv
   = [(js ''air'', \<lparr>indexName = js ''air'', indexUrl = js ''https://air.example''\<rparr>)]"
  by (simp add: configuredIndexes_def collidingEnv_def exampleEnv_def configGet_def truthy_def
      js_def Let_def)

lemma forIn_collidingEnv: "forIn (configuredIndexes collidingEnv) = configuredIndexes collidingEnv"
  by (simp add: configuredIndexes_collidingEnv forIn_def arrayIndex_def js_def isDigit_def)

text \<open>
  C3, as the code has it. The table \<open>indexes\<close> is keyed by index name: it holds the default
  index under its name when its URL is set and the second index under its name when its URL
  is set, and when the two names are equal the second entry replaces the first, so that the
  default URL is not in the table. \<open>upsertVector\<close> issues the same \<open>upsertRecords\<close> call, with
  the records it was given, to the indexes of the table in the order of \<open>for ... in\<close>. When
  every index of a non-empty table accepts, it returns the identifiers of the records (the
  non-empty ones, in order). It throws the exception of the first index that refuses, after
  the calls up to that index and none after it, and its own error when the table is empty.
  When an index refuses inside the pipeline of an existing document whose text was extracted
  and written, the document ends with status \<open>error\<close>, the message of that exception, and
  no new chunk.
\<close>

theorem upsertVector_reaches_every_index:
  "(\<forall>ids s'. upsertVector e v s = (Inr ids, s') \<longrightarrow>
        ids = filter (\<lambda>i. i \<noteq> []) (map itemId v)
      \<and> remoteCalls s' = remoteCalls s @ map (upsertCall v) (forIn (configuredIndexes e))
      \<and> set (forIn (configuredIndexes e)) = set (configuredIndexes e)
      \<and> list_all (upsertAccepted e v) (configuredIndexes e))
   \<and> (configuredIndexes e \<noteq> [] \<and> list_all (upsertAccepted e v) (configuredIndexes e) \<longrightarrow>
        upsertVector e v s
        = (Inr (filter (\<lambda>i. i \<noteq> []) (map itemId v)),
           s\<lparr>remoteCalls := remoteCalls s @ map (upsertCall v) (forIn (configuredIndexes e))\<rparr>))
   \<and> (truthy (PINECONE_INDEX_URL e) \<and> truthy (PINECONE_INDEX_URL_AIR e)
        \<and> configGet (PINECONE_INDEX_NAME e) (js ''air-multy'')
            \<noteq> configGet (PINECONE_INDEX_NAME_AIR e) (js ''air'') \<longrightarrow>
        configuredIndexes e
        = [(configGet (PINECONE_INDEX_NAME e) (js ''air-multy''),
            \<lparr>indexName = configGet (PINECONE_INDEX_NAME e) (js ''air-multy''),
             indexUrl = the (PINECONE_INDEX_URL e)\<rparr>),
           (configGet (PINECONE_INDEX_NAME_AIR e) (js ''air''),
            \<lparr>indexName = configGet (PINECONE_INDEX_NAME_AIR e) (js ''air''),
             indexUrl = the (PINECONE_INDEX_URL_AIR e)\<rparr>)])
   \<and> (truthy (PINECONE_INDEX_URL e) \<and> truthy (PINECONE_INDEX_URL_AIR e)
        \<and> configGet (PINECONE_INDEX_NAME e) (js ''air-multy'')
            = configGet (PINECONE_INDEX_NAME_AIR e) (js ''air'') \<longrightarrow>
        configuredIndexes e
        = [(configGet (PINECONE_INDEX_NAME_AIR e) (js ''air''),
            \<lparr>indexName = configGet (PINECONE_INDEX_NAME_AIR e) (js ''air''),
             indexUrl = the (PINECONE_INDEX_URL_AIR e)\<rparr>)])
   \<and> (truthy (PINECONE_INDEX_URL e) \<and> \<not> truthy (PINECONE_INDEX_URL_AIR e) \<longrightarrow>
        configuredIndexes e
        = [(configGet (PINECONE_INDEX_NAME e) (js ''air-multy''),
            \<lparr>indexName = configGet (PINECONE_INDEX_NAME e) (js ''air-multy''),
             indexUrl = the (PINECONE_INDEX_URL e)\<rparr>)])
   \<and> (\<not> truthy (PINECONE_INDEX_URL e) \<and> truthy (PINECONE_INDEX_URL_AIR e) \<longrightarrow>
        configuredIndexes e
        = [(configGet (PINECONE_INDEX_NAME_AIR e) (js ''air''),
            \<lparr>indexName = configGet (PINECONE_INDEX_NAME_AIR e) (js ''air''),
             indexUrl = the (PINECONE_INDEX_URL_AIR e)\<rparr>)])
   \<and> (\<not> truthy (PINECONE_INDEX_URL e) \<and> \<not> truthy (PINECONE_INDEX_URL_AIR e) \<longrightarrow>
        configuredIndexes e = []
        \<and> upsertVector e v s
          = (Inl (JsError (js ''At least one Pinecone index URL must be configured'')), s))
   \<and> (\<forall>before k ix after err.
          forIn (configuredIndexes e) = before @ (k, ix) # after
        \<and> list_all (upsertAccepted e v) before
        \<and> upsertRecords e (indexName ix) (indexUrl ix) v = Some err \<longrightarrow>
        upsertVector e v s
        = (Inl err,
           s\<lparr>remoteCalls := remoteCalls s @ map (upsertCall v) (before @ [(k, ix)])\<rparr>))
   \<and> (\<not> list_all (upsertAccepted e v) (configuredIndexes e) \<longrightarrow>
        (\<exists>err s'. upsertVector e v s = (Inl err, s')))
   \<and> (\<forall>d parsed before k ix after err.
          find (\<lambda>d. docId d = did) (documents s) = Some d
        \<and> parseFile e (docPath d) (docType d) = Inr parsed
        \<and> writeFileError e (textPathOf e did) = None
        \<and> forIn (configuredIndexes e) = before @ (k, ix) # after
        \<and> list_all (upsertAccepted e (pipelineData e did d parsed)) before
        \<and> upsertRecords e (indexName ix) (indexUrl ix) (pipelineData e did d parsed) = Some err
        \<longrightarrow> statusOf (backgroundProcess e s did) did = Some (StatusError, Some (messageOf err))
          \<and> (\<forall>m. err = JsError m \<longrightarrow>
                statusOf (backgroundProcess e s did) did = Some (StatusError, Some m))
          \<and> chunks (backgroundProcess e s did) = chunks s)"
proof (intro conjI allI impI)
  fix ids s'
  assume ok: "upsertVector e v s = (Inr ids, s')"
  note succ = upsertVector_success [OF ok]
  show "ids = filter (\<lambda>i. i \<noteq> []) (map itemId v)" by (rule succ(1))
  show "list_all (upsertAccepted e v) (configuredIndexes e)" by (rule succ(2))
  show "remoteCalls s' = remoteCalls s @ map (upsertCall v) (forIn (configuredIndexes e))"
    by (subst succ(3)) simp
  show "set (forIn (configuredIndexes e)) = set (configuredIndexes e)" by (rule set_forIn)
next
  assume "configuredIndexes e \<noteq> [] \<and> list_all (upsertAccepted e v) (configuredIndexes e)"
  then show "upsertVector e v s
        = (Inr (filter (\<lambda>i. i \<noteq> []) (map itemId v)),
           s\<lparr>remoteCalls := remoteCalls s @ map (upsertCall v) (forIn (configuredIndexes e))\<rparr>)"
    by (simp add: upsertVector_accepted)
next
  assume "truthy (PINECONE_INDEX_URL e) \<and> truthy (PINECONE_INDEX_URL_AIR e)
        \<and> configGet (PINECONE_INDEX_NAME e) (js ''air-multy'')
            \<noteq> configGet (PINECONE_INDEX_NAME_AIR e) (js ''air'')"
  then show "configuredIndexes e
        = [(configGet (PINECONE_INDEX_NAME e) (js ''air-multy''),
            \<lparr>indexName = configGet (PINECONE_INDEX_NAME e) (js ''air-multy''),
             indexUrl = the (PINECONE_INDEX_URL e)\<rparr>),
           (configGet (PINECONE_INDEX_NAME_AIR e) (js ''air''),
            \<lparr>indexName = configGet (PINECONE_INDEX_NAME_AIR e) (js ''air''),
             indexUrl = the (PINECONE_INDEX_URL_AIR e)\<rparr>)]"
    by (simp add: configuredIndexes_table(1))
next
  assume "truthy (PINECONE_INDEX_URL e) \<and> truthy (PINECONE_INDEX_URL_AIR e)
        \<and> configGet (PINECONE_INDEX_NAME e) (js ''air-multy'')
            = configGet (PINECONE_INDEX_NAME_AIR e) (js ''air'')"
  then show "configuredIndexes e
        = [(configGet (PINECONE_INDEX_NAME_AIR e) (js ''air''),
            \<lparr>indexName = configGet (PINECONE_INDEX_NAME_AIR e) (js ''air''),
             indexUrl = the (PINECONE_INDEX_URL_AIR e)\<rparr>)]"
    by (simp add: configuredIndexes_table(2))
next
  assume "truthy (PINECONE_INDEX_URL e) \<and> \<not> truthy (PINECONE_INDEX_URL_AIR e)"
  then show "configuredIndexes e
        = [(configGet (PINECONE_INDEX_NAME e) (js ''air-multy''),
            \<lparr>indexName = configGet (PINECONE_INDEX_NAME e) (js ''air-multy''),
             indexUrl = the (PINECONE_INDEX_URL e)\<rparr>)]"
    by (simp add: configuredIndexes_table(3))
next
  assume "\<not> truthy (PINECONE_INDEX_URL e) \<and> truthy (PINECONE_INDEX_URL_AIR e)"
  then show "configuredIndexes e
        = [(configGet (PINECONE_INDEX_NAME_AIR e) (js ''air''),
            \<lparr>indexName = configGet (PINECONE_INDEX_NAME_AIR e) (js ''air''),
             indexUrl = the (PINECONE_INDEX_URL_AIR e)\<rparr>)]"
    by (simp add: configuredIndexes_table(4))
next
  assume "\<not> truthy (PINECONE_INDEX_URL e) \<and> \<not> truthy (PINECONE_INDEX_URL_AIR e)"
  then show none: "configuredIndexes e = []"
    by (simp add: configuredIndexes_table(5))
  then show "upsertVector e v s
          = (Inl (JsError (js ''At least one Pinecone index URL must be configured'')), s)"
    by (rule upsertVector_unconfigured)
next
  fix before k ix after err
  assume "forIn (configuredIndexes e) = before @ (k, ix) # after
        \<and> list_all (upsertAccepted e v) before
        \<and> upsertRecords e (indexName ix) (indexUrl ix) v = Some err"
  then show "upsertVector e v s
        = (Inl err,
           s\<lparr>remoteCalls := remoteCalls s @ map (upsertCall v) (before @ [(k, ix)])\<rparr>)"
    using upsertVector_first_refusal [of e before k ix after v err s] by blast
next
  assume "\<not> list_all (upsertAccepted e v) (configuredIndexes e)"
  then show "\<exists>err s'. upsertVector e v s = (Inl err, s')"
    by (rule upsertVector_refused)
next
  fix d parsed before k ix after err
  assume h: "find (\<lambda>d. docId d = did) (documents s) = Some d
        \<and> parseFile e (docPath d) (docType d) = Inr parsed
        \<and> writeFileError e (textPathOf e did) = None
        \<and> forIn (configuredIndexes e) = before @ (k, ix) # after
        \<and> list_all (upsertAccepted e (pipelineData e did d parsed)) before
        \<and> upsertRecords e (indexName ix) (indexUrl ix) (pipelineData e did d parsed) = Some err"
  then have found: "find (\<lambda>d. docId d = did) (documents s) = Some d" by simp
  from h processDocument_first_refusal [of did s d e parsed before k ix after err]
  obtain s' where fails: "processDocument e s did = (Inl err, s')" by blast
  from background_failure [OF found fails]
  show st: "statusOf (backgroundProcess e s did) did = Some (StatusError, Some (messageOf err))"
    and "chunks (backgroundProcess e s did) = chunks s"
    by simp_all
  fix m
  assume "err = JsError m"
  with st show "statusOf (backgroundProcess e s did) did = Some (StatusError, Some m)" by simp
qed

theorem upsertVector_reaches_every_index_counterexample:
  "PINECONE_INDEX_URL collidingEnv = Some (js ''https://multy.example'')
   \<and> truthy (PINECONE_INDEX_URL collidingEnv)
   \<and> PINECONE_INDEX_URL_AIR collidingEnv = Some (js ''https://air.example'')
   \<and> truthy (PINECONE_INDEX_URL_AIR collidingEnv)
   \<and> upsertVector collidingEnv [exampleItem] emptyState
       = (Inr [js ''id0_chunk_0''],
          emptyState\<lparr>remoteCalls :=
            [UpsertRecords (js ''air'') (js ''https://air.example'') [exampleItem]]\<rparr>)
   \<and> js ''https://multy.example'' \<noteq> js ''https://air.example''"
proof -
  have conf: "configuredIndexes collidingEnv \<noteq> []" by (simp add: configuredIndexes_collidingEnv)
  have acc: "list_all (upsertAccepted collidingEnv [exampleItem]) (configuredIndexes collidingEnv)"
    by (simp add: configuredIndexes_collidingEnv upsertAccepted_def)
       (simp add: collidingEnv_def exampleEnv_def)
  have run: "upsertVector collidingEnv [exampleItem] emptyState
       = (Inr [js ''id0_chunk_0''],
          emptyState\<lparr>remoteCalls :=
            [UpsertRecords (js ''air'') (js ''https://air.example'') [exampleItem]]\<rparr>)"
    by (simp add: upsertVector_accepted [OF acc conf] forIn_collidingEnv)
       (simp add: configuredIndexes_collidingEnv upsertCall_def exampleItem_def emptyState_def js_def)
  have urls: "PINECONE_INDEX_URL collidingEnv = Some (js ''https://multy.example'')"
    "PINECONE_INDEX_URL_AIR collidingEnv = Some (js ''https://air.example'')"
    by (simp_all add: collidingEnv_def exampleEnv_def)
  have t: "truthy (PINECONE_INDEX_URL collidingEnv)" "truthy (PINECONE_INDEX_URL_AIR collidingEnv)"
    by (simp_all add: collidingEnv_def exampleEnv_def truthy_def js_def)
  have "js ''https://multy.example'' \<noteq> js ''https://air.example''" by (simp add: js_def)
  with run urls t show ?thesis by simp
qed

theorem upsertVector_reaches_every_index_witness:
  "upsertVector exampleEnv [exampleItem] emptyState
     = (Inr [js ''id0_chunk_0''],
        emptyState\<lparr>remoteCalls :=
          [UpsertRecords (js ''air-multy'') (js ''https://multy.example'') [exampleItem],
           UpsertRecords (js ''air'') (js ''https://air.example'') [exampleItem]]\<rparr>)
   \<and> configuredIndexes exampleEnv
       = [(js ''air-multy'', \<lparr>indexName = js ''air-multy'', indexUrl = js ''https://multy.example''\<rparr>),
          (js ''air'', \<lparr>indexName = js ''air'', indexUrl = js ''https://air.example''\<rparr>)]
   \<and> configuredIndexes collidingEnv
       = [(js ''air'', \<lparr>indexName = js ''air'', indexUrl = js ''https://air.example''\<rparr>)]
   \<and> upsertVector failingEnv [exampleItem] readyState
       = (Inl (JsError (js ''index unreachable'')),
          readyState\<lparr>remoteCalls :=
            [UpsertRecords (js ''air-multy'') (js ''https://multy.example'') [exampleItem],
             UpsertRecords (js ''air'') (js ''https://air.example'') [exampleItem]]\<rparr>)
   \<and> statusOf (backgroundProcess failingEnv readyState (js ''id0'')) (js ''id0'')
       = Some (StatusError, Some (js ''index unreachable''))
   \<and> chunks (backgroundProcess failingEnv readyState (js ''id0'')) = chunks readyState"
proof -
  let ?multy = "(js ''air-multy'', \<lparr>indexName = js ''air-multy'', indexUrl = js ''https://multy.example''\<rparr>)"
  let ?air = "\<lparr>indexName = js ''air'', indexUrl = js ''https://air.example''\<rparr>"
  note thm1 = upsertVector_reaches_every_index [of exampleEnv "[exampleItem]" emptyState "js ''id0''"]
  note thm2 = upsertVector_reaches_every_index [of failingEnv "[exampleItem]" readyState "js ''id0''"]
  note thm3 = upsertVector_reaches_every_index [of collidingEnv "[exampleItem]" emptyState "js ''id0''"]
  note accepted = thm1 [THEN conjunct2, THEN conjunct1, rule_format]
  note table1 = thm1 [THEN conjunct2, THEN conjunct2, THEN conjunct1, rule_format]
  note table3 = thm3 [THEN conjunct2, THEN conjunct2, THEN conjunct2, THEN conjunct1, rule_format]
  note refusal = thm2 [THEN conjunct2, THEN conjunct2, THEN conjunct2, THEN conjunct2, THEN conjunct2,
    THEN conjunct2, THEN conjunct2, THEN conjunct1, rule_format,
    of "[?multy]" "js ''air''" ?air "[]" "JsError (js ''index unreachable'')"]
  note pipeline = thm2 [THEN conjunct2, THEN conjunct2, THEN conjunct2, THEN conjunct2, THEN conjunct2,
    THEN conjunct2, THEN conjunct2, THEN conjunct2, THEN conjunct2, rule_format,
    of exampleDocument "js ''Hello world.''" "[?multy]" "js ''air''" ?air "[]"
       "JsError (js ''index unreachable'')"]
  have conf: "configuredIndexes exampleEnv \<noteq> []" by (simp add: configuredIndexes_exampleEnv)
  from accepted conf accepted_exampleEnv
  have "upsertVector exampleEnv [exampleItem] emptyState
        = (Inr (filter (\<lambda>i. i \<noteq> []) (map itemId [exampleItem])),
           emptyState\<lparr>remoteCalls := remoteCalls emptyState
              @ map (upsertCall [exampleItem]) (forIn (configuredIndexes exampleEnv))\<rparr>)"
    by simp
  then have run: "upsertVector exampleEnv [exampleItem] emptyState
     = (Inr [js ''id0_chunk_0''],
        emptyState\<lparr>remoteCalls :=
          [UpsertRecords (js ''air-multy'') (js ''https://multy.example'') [exampleItem],
           UpsertRecords (js ''air'') (js ''https://air.example'') [exampleItem]]\<rparr>)"
    by (simp add: forIn_exampleEnv)
       (simp add: configuredIndexes_exampleEnv upsertCall_def exampleItem_def emptyState_def js_def)
  have t1: "truthy (PINECONE_INDEX_URL exampleEnv) \<and> truthy (PINECONE_INDEX_URL_AIR exampleEnv)
            \<and> configGet (PINECONE_INDEX_NAME exampleEnv) (js ''air-multy'')
                \<noteq> configGet (PINECONE_INDEX_NAME_AIR exampleEnv) (js ''air'')"
    by (simp add: exampleEnv_def truthy_def configGet_def js_def)
  from table1 [OF t1]
  have table: "configuredIndexes exampleEnv
       = [(js ''air-multy'', \<lparr>indexName = js ''air-multy'', indexUrl = js ''https://multy.example''\<rparr>),
          (js ''air'', \<lparr>indexName = js ''air'', indexUrl = js ''https://air.example''\<rparr>)]"
    by (simp add: exampleEnv_def configGet_def)
  have c1: "truthy (PINECONE_INDEX_URL collidingEnv) \<and> truthy (PINECONE_INDEX_URL_AIR collidingEnv)
            \<and> configGet (PINECONE_INDEX_NAME collidingEnv) (js ''air-multy'')
                = configGet (PINECONE_INDEX_NAME_AIR collidingEnv) (js ''air'')"
    by (simp add: collidingEnv_def exampleEnv_def truthy_def configGet_def js_def)
  from table3 [OF c1]
  have collide: "configuredIndexes collidingEnv
       = [(js ''air'', \<lparr>indexName = js ''air'', indexUrl = js ''https://air.example''\<rparr>)]"
    by (simp add: collidingEnv_def exampleEnv_def configGet_def)
  have order: "forIn (configuredIndexes failingEnv) = [?multy] @ (js ''air'', ?air) # []"
    by (rule forIn_failingEnv)
  from refusal order failingEnv_first_accepts [of "[exampleItem]"]
    failingEnv_second_refuses [of "[exampleItem]"]
  have "upsertVector failingEnv [exampleItem] readyState
        = (Inl (JsError (js ''index unreachable'')),
           readyState\<lparr>remoteCalls := remoteCalls readyState
             @ map (upsertCall [exampleItem]) ([?multy] @ [(js ''air'', ?air)])\<rparr>)"
    by simp
  then have thrown: "upsertVector failingEnv [exampleItem] readyState
       = (Inl (JsError (js ''index unreachable'')),
          readyState\<lparr>remoteCalls :=
            [UpsertRecords (js ''air-multy'') (js ''https://multy.example'') [exampleItem],
             UpsertRecords (js ''air'') (js ''https://air.example'') [exampleItem]]\<rparr>)"
    by (simp add: upsertCall_def readyState_def)
  have parse: "parseFile failingEnv (docPath exampleDocument) (docType exampleDocument)
               = Inr (js ''Hello world.'')"
    by (simp add: failingEnv_def exampleEnv_def)
  have wfile: "writeFileError failingEnv (textPathOf failingEnv (js ''id0'')) = None"
    by (simp add: failingEnv_def exampleEnv_def)
  have hyp: "find (\<lambda>d. docId d = js ''id0'') (documents readyState) = Some exampleDocument
        \<and> parseFile failingEnv (docPath exampleDocument) (docType exampleDocument) = Inr (js ''Hello world.'')
        \<and> writeFileError failingEnv (textPathOf failingEnv (js ''id0'')) = None
        \<and> forIn (configuredIndexes failingEnv) = [?multy] @ (js ''air'', ?air) # []
        \<and> list_all (upsertAccepted failingEnv
              (pipelineData failingEnv (js ''id0'') exampleDocument (js ''Hello world.''))) [?multy]
        \<and> upsertRecords failingEnv (indexName ?air) (indexUrl ?air)
              (pipelineData failingEnv (js ''id0'') exampleDocument (js ''Hello world.''))
            = Some (JsError (js ''index unreachable''))"
    using find_readyState parse wfile order failingEnv_first_accepts failingEnv_second_refuses
    by (intro conjI)
  from pipeline [OF hyp]
  have "statusOf (backgroundProcess failingEnv readyState (js ''id0'')) (js ''id0'')
              = Some (StatusError, Some (js ''index unreachable''))"
    and "chunks (backgroundProcess failingEnv readyState (js ''id0'')) = chunks readyState"
    by simp_all
  with run table collide thrown show ?thesis by simp
qed


lemma deleteAccepted_pair:
  "deleteAccepted e ids (k, ix) \<longleftrightarrow> deleteMany e (indexName ix) (indexUrl ix) ids = None"
  by (simp add: deleteAccepted_def)

lemma deleteLoop_all_accepted:
  "list_all (deleteAccepted e ids) ixs \<Longrightarrow>
   \<exists>calls. deleteLoop e ids ixs s = (None, s\<lparr>remoteCalls := calls\<rparr>)"
proof (induction ixs arbitrary: s)
  case Nil
  have "s = s\<lparr>remoteCalls := remoteCalls s\<rparr>" by simp
  then show ?case by (metis deleteLoop.simps(1))
next
  case (Cons p ixs)
  obtain k ix where p: "p = (k, ix)" by (cases p)
  from Cons.prems p have acc: "deleteMany e (indexName ix) (indexUrl ix) ids = None"
    and rest: "list_all (deleteAccepted e ids) ixs"
    by (simp_all add: deleteAccepted_pair)
  let ?s1 = "s\<lparr>remoteCalls := remoteCalls s @ [DeleteMany (indexName ix) (indexUrl ix) ids]\<rparr>"
  from Cons.IH [OF rest, of ?s1]
  obtain calls where "deleteLoop e ids ixs ?s1 = (None, ?s1\<lparr>remoteCalls := calls\<rparr>)" by blast
  with acc p have "deleteLoop e ids (p # ixs) s = (None, s\<lparr>remoteCalls := calls\<rparr>)"
    by (simp add: Let_def)
  then show ?case by blast
qed

lemma deleteVectors_all_accepted:
  assumes "list_all (deleteAccepted e ids) (configuredIndexes e)"
  shows "\<exists>calls. deleteVectors e ids s = (None, s\<lparr>remoteCalls := calls\<rparr>)"
proof (cases "length ids = 0")
  case True
  have "s = s\<lparr>remoteCalls := remoteCalls s\<rparr>" by simp
  with True show ?thesis by (metis deleteVectors_def)
next
  case False
  from assms have "list_all (deleteAccepted e ids) (forIn (configuredIndexes e))"
    by (simp add: list_all_forIn)
  from deleteLoop_all_accepted [OF this, of s] False show ?thesis
    by (simp add: deleteVectors_def)
qed

lemma find_filter_other_id:
  "find (\<lambda>d. docId d = did \<and> Q d) (filter (\<lambda>d. docId d \<noteq> did) ds) = None"
  by (induction ds) auto

lemma find_filter_other_id': "find (\<lambda>d. docId d = did) (filter (\<lambda>d. docId d \<noteq> did) ds) = None"
  by (induction ds) auto

lemma deleteDocument_removes_row:
  assumes "deleteDocument e s did uid = (Inr u, s')"
  shows "\<exists>ds. documents s' = filter (\<lambda>d. docId d \<noteq> did) ds"
  using assms unfolding deleteDocument_def Let_def
  by (auto split: sum.splits prod.splits option.splits if_splits)

lemma second_delete_throws:
  assumes "deleteDocument e s did uid = (Inr u, s')"
  shows "deleteDocument e' s' did uid = (Inl (NotFoundException (js ''Document not found'')), s')"
proof -
  from deleteDocument_removes_row [OF assms]
  obtain ds where "documents s' = filter (\<lambda>d. docId d \<noteq> did) ds" by blast
  then have "getDocument s' did uid = Inl (NotFoundException (js ''Document not found''))"
    by (simp add: getDocument_def find_filter_other_id)
  then show ?thesis by (simp add: deleteDocument_def)
qed

text \<open>Deleting a document whose backing files are already gone.\<close>

lemma existsSync_remoteCalls: "existsSync (s\<lparr>remoteCalls := c\<rparr>) p = existsSync s p"
  by (simp add: existsSync_def)

lemma deleteDocument_missing_files:
  assumes doc: "getDocument s did uid = Inr d"
      and remote: "list_all (deleteAccepted e
                     (filter (\<lambda>i. i \<noteq> []) (map pineconeId (filter (\<lambda>c. documentId c = did) (chunks s)))))
                     (configuredIndexes e)"
      and original: "\<not> existsSync s (docPath d)"
      and textfile: "\<forall>p. textFilePath d = Some p \<longrightarrow> \<not> existsSync s p"
  shows "\<exists>s'. deleteDocument e s did uid = (Inr (), s')
            \<and> find (\<lambda>d. docId d = did) (documents s') = None
            \<and> files s' = files s"
proof -
  let ?ids = "filter (\<lambda>i. i \<noteq> []) (map pineconeId (filter (\<lambda>c. documentId c = did) (chunks s)))"
  have tf: "textFilePath d = None \<or> \<not> existsSync s (the (textFilePath d))"
    using textfile by (cases "textFilePath d") simp_all
  show ?thesis
  proof (cases "truthy (assistantFileId d)")
    case True
    let ?s1 = "s\<lparr>remoteCalls := remoteCalls s @ [AssistantDeleteFile (the (assistantFileId d))]\<rparr>"
    from deleteVectors_all_accepted [OF remote, of ?s1]
    obtain calls where del: "deleteVectors e ?ids ?s1 = (None, s\<lparr>remoteCalls := calls\<rparr>)"
      by auto
    from True del original tf doc show ?thesis
      by (cases "textFilePath d")
         (auto simp: deleteDocument_def Let_def existsSync_remoteCalls find_filter_other_id' truthy_def)
  next
    case False
    from deleteVectors_all_accepted [OF remote, of s]
    obtain calls where del: "deleteVectors e ?ids s = (None, s\<lparr>remoteCalls := calls\<rparr>)"
      by auto
    from False del original tf doc show ?thesis
      by (cases "textFilePath d")
         (auto simp: deleteDocument_def Let_def existsSync_remoteCalls find_filter_other_id' truthy_def)
  qed
qed

text \<open>
  C9 (as the code has it). When \<open>deleteDocument\<close> has returned, a second call for the same
  document throws \<open>NotFoundException('Document not found')\<close> and changes nothing: the row
  is gone and \<open>getDocument\<close> is the first thing the method calls. What does not raise an
  error is a missing backing file: a document whose files no longer exist is deleted
  without error when the indexes accept the deletion of its vectors.
\<close>

theorem second_delete_raises_not_found:
  "(\<forall>s'. deleteDocument e s did uid = (Inr (), s') \<longrightarrow>
        (\<forall>e'. deleteDocument e' s' did uid
                 = (Inl (NotFoundException (js ''Document not found'')), s')))
   \<and> (\<forall>d. getDocument s did uid = Inr d
          \<and> list_all (deleteAccepted e
               (filter (\<lambda>i. i \<noteq> []) (map pineconeId (filter (\<lambda>c. documentId c = did) (chunks s)))))
               (configuredIndexes e)
          \<and> \<not> existsSync s (docPath d)
          \<and> (\<forall>p. textFilePath d = Some p \<longrightarrow> \<not> existsSync s p)
        \<longrightarrow> (\<exists>s'. deleteDocument e s did uid = (Inr (), s')
                 \<and> find (\<lambda>d. docId d = did) (documents s') = None
                 \<and> files s' = files s))"
proof (intro conjI allI impI)
  fix s' e'
  assume "deleteDocument e s did uid = (Inr (), s')"
  then show "deleteDocument e' s' did uid = (Inl (NotFoundException (js ''Document not found'')), s')"
    by (rule second_delete_throws)
next
  fix d
  assume h: "getDocument s did uid = Inr d
          \<and> list_all (deleteAccepted e
               (filter (\<lambda>i. i \<noteq> []) (map pineconeId (filter (\<lambda>c. documentId c = did) (chunks s)))))
               (configuredIndexes e)
          \<and> \<not> existsSync s (docPath d)
          \<and> (\<forall>p. textFilePath d = Some p \<longrightarrow> \<not> existsSync s p)"
  then show "\<exists>s'. deleteDocument e s did uid = (Inr (), s')
                 \<and> find (\<lambda>d. docId d = did) (documents s') = None
                 \<and> files s' = files s"
    using deleteDocument_missing_files [of s did uid d e] by blast
qed

lemma getDocument_readyState:
  "getDocument readyState (js ''id0'') (js ''u1'') = Inr exampleDocument"
  by (simp add: getDocument_def readyState_def exampleDocument_def)

lemma delete_accepted_exampleEnv: "list_all (deleteAccepted exampleEnv ids) (configuredIndexes exampleEnv)"
  by (simp add: configuredIndexes_exampleEnv deleteAccepted_def) (simp add: exampleEnv_def)

text \<open>The first deletion in the concrete state: both files exist and are removed.\<close>

lemma first_delete_readyState:
  "fst (deleteDocument exampleEnv readyState (js ''id0'') (js ''u1'')) = Inr ()"
proof -
  let ?s1 = "readyState\<lparr>remoteCalls := remoteCalls readyState @ [AssistantDeleteFile (js ''file1'')]\<rparr>"
  obtain calls where del: "deleteVectors exampleEnv [js ''id0_chunk_0''] ?s1 = (None, ?s1\<lparr>remoteCalls := calls\<rparr>)"
    using deleteVectors_all_accepted [OF delete_accepted_exampleEnv, of "[js ''id0_chunk_0'']" ?s1] by blast
  have ids: "filter (\<lambda>c. documentId c = js ''id0'') (chunks readyState) = [exampleChunk]"
    by (simp add: readyState_def exampleChunk_def)
  have pid: "pineconeId exampleChunk = js ''id0_chunk_0''" "js ''id0_chunk_0'' \<noteq> []"
    by (simp_all add: exampleChunk_def js_def)
  have doc: "assistantFileId exampleDocument = Some (js ''file1'')" "js ''file1'' \<noteq> []"
    "docPath exampleDocument = js ''./uploads/17-a.txt''"
    "textFilePath exampleDocument = Some (js ''./uploads/id0-text.txt'')"
    by (simp_all add: exampleDocument_def js_def)
  have f1: "files readyState (js ''./uploads/17-a.txt'') = Some (Bytes [0x61, 0x62, 0x63])"
    by (simp add: readyState_def)
  have f2: "files readyState (js ''./uploads/id0-text.txt'') = Some (Utf8Text (js ''Hello world.''))"
    "js ''./uploads/id0-text.txt'' \<noteq> js ''./uploads/17-a.txt''"
    by (simp_all add: readyState_def js_def)
  show ?thesis
    unfolding deleteDocument_def Let_def getDocument_readyState sum.case
    by (simp add: doc truthy_def ids pid del existsSync_def unlinkSync_def f1 f2)
qed

theorem second_delete_raises_not_found_counterexample:
  "fst (deleteDocument exampleEnv readyState (js ''id0'') (js ''u1'')) = Inr ()
   \<and> fst (deleteDocument exampleEnv
            (snd (deleteDocument exampleEnv readyState (js ''id0'') (js ''u1'')))
            (js ''id0'') (js ''u1''))
       = Inl (NotFoundException (js ''Document not found''))"
proof -
  obtain s' where first: "deleteDocument exampleEnv readyState (js ''id0'') (js ''u1'') = (Inr (), s')"
    using first_delete_readyState
    by (cases "deleteDocument exampleEnv readyState (js ''id0'') (js ''u1'')") auto
  from second_delete_throws [OF first, of exampleEnv] first show ?thesis by simp
qed

theorem second_delete_raises_not_found_witness:
  "(\<exists>s'. deleteDocument exampleEnv readyState (js ''id0'') (js ''u1'') = (Inr (), s')
        \<and> deleteDocument exampleEnv s' (js ''id0'') (js ''u1'')
            = (Inl (NotFoundException (js ''Document not found'')), s'))
   \<and> getDocument orphanState (js ''id0'') (js ''u1'') = Inr exampleOrphan
   \<and> \<not> existsSync orphanState (docPath exampleOrphan)
   \<and> textFilePath exampleOrphan = None
   \<and> (\<exists>s'. deleteDocument exampleEnv orphanState (js ''id0'') (js ''u1'') = (Inr (), s')
         \<and> find (\<lambda>d. docId d = js ''id0'') (documents s') = None
         \<and> files s' = files orphanState)"
proof -
  note thm1 = second_delete_raises_not_found [of exampleEnv readyState "js ''id0''" "js ''u1''"]
  note thm2 = second_delete_raises_not_found [of exampleEnv orphanState "js ''id0''" "js ''u1''"]
  obtain s' where first: "deleteDocument exampleEnv readyState (js ''id0'') (js ''u1'') = (Inr (), s')"
    using first_delete_readyState
    by (cases "deleteDocument exampleEnv readyState (js ''id0'') (js ''u1'')") auto
  with thm1 have a: "\<exists>s'. deleteDocument exampleEnv readyState (js ''id0'') (js ''u1'') = (Inr (), s')
        \<and> deleteDocument exampleEnv s' (js ''id0'') (js ''u1'')
            = (Inl (NotFoundException (js ''Document not found'')), s')"
    by blast
  have doc: "getDocument orphanState (js ''id0'') (js ''u1'') = Inr exampleOrphan"
    by (simp add: getDocument_def orphanState_def exampleOrphan_def exampleDocument_def)
  have gone: "\<not> existsSync orphanState (docPath exampleOrphan)"
    by (simp add: existsSync_def orphanState_def exampleOrphan_def readyState_def js_def)
  have notext: "textFilePath exampleOrphan = None"
    by (simp add: exampleOrphan_def)
  from thm2 doc gone notext delete_accepted_exampleEnv
  have "\<exists>s'. deleteDocument exampleEnv orphanState (js ''id0'') (js ''u1'') = (Inr (), s')
         \<and> find (\<lambda>d. docId d = js ''id0'') (documents s') = None
         \<and> files s' = files orphanState"
    by simp
  with a doc gone notext show ?thesis by blast
qed


section \<open>Properties of cleanTextLineBreaks\<close>

lemma cleanTextLineBreaks_eq: "cleanTextLineBreaks t = replaceNewlineRuns t"
  by (simp add: cleanTextLineBreaks_def)

lemma hasTripleNewline_Cons:
  "hasTripleNewline (c # cs)
   \<longleftrightarrow> (c = LF \<and> 2 \<le> length (takeWhile (\<lambda>x. x = LF) cs)) \<or> hasTripleNewline cs"
proof (cases cs)
  case Nil
  then show ?thesis by simp
next
  case (Cons b r)
  then show ?thesis by (cases r) auto
qed

lemma hasTripleNewline_runs:
  "hasTripleNewline cs
   \<longleftrightarrow> 3 \<le> length (takeWhile (\<lambda>x. x = LF) cs) \<or> hasTripleNewline (dropWhile (\<lambda>x. x = LF) cs)"
proof (induction cs)
  case Nil
  then show ?case by simp
next
  case (Cons c cs)
  show ?case
  proof (cases "c = LF")
    case True
    have "hasTripleNewline (c # cs)
          \<longleftrightarrow> 2 \<le> length (takeWhile (\<lambda>x. x = LF) cs) \<or> hasTripleNewline cs"
      using True by (simp add: hasTripleNewline_Cons)
    also have "\<dots> \<longleftrightarrow> 2 \<le> length (takeWhile (\<lambda>x. x = LF) cs)
                 \<or> hasTripleNewline (dropWhile (\<lambda>x. x = LF) cs)"
      using Cons.IH by auto
    finally show ?thesis using True by auto
  next
    case False
    then show ?thesis by simp
  qed
qed

lemma replaceNewlineRuns_head:
  "replaceNewlineRuns s = [] \<or> hd (replaceNewlineRuns s) \<noteq> LF \<longleftrightarrow> s = [] \<or> hd s \<noteq> LF"
  by (cases s) (auto simp: Let_def)

lemma dropWhile_LF_head: "dropWhile (\<lambda>x. x = LF) cs = [] \<or> hd (dropWhile (\<lambda>x. x = LF) cs) \<noteq> LF"
  by (metis (mono_tags, lifting) hd_dropWhile)

lemma takeWhile_LF_replicate:
  "takeWhile (\<lambda>x. x = LF) cs = replicate (length (takeWhile (\<lambda>x. x = LF) cs)) LF"
  by (induction cs) auto

lemma runs_append:
  assumes "b = [] \<or> hd b \<noteq> LF"
  shows "takeWhile (\<lambda>x. x = LF) (replicate k LF @ b) = replicate k LF"
    and "dropWhile (\<lambda>x. x = LF) (replicate k LF @ b) = b"
  using assms by (cases b; auto simp: takeWhile_append dropWhile_append)+

lemma hasTripleNewline_replicate_append:
  assumes "b = [] \<or> hd b \<noteq> LF"
  shows "hasTripleNewline (replicate k LF @ b) \<longleftrightarrow> 3 \<le> k \<or> hasTripleNewline b"
  by (subst hasTripleNewline_runs) (simp add: runs_append [OF assms])

lemma replaceNewlineRuns_no_triple: "\<not> hasTripleNewline (replaceNewlineRuns t)"
proof (induction t rule: replaceNewlineRuns.induct)
  case 1
  then show ?case by simp
next
  case (2 c cs)
  show ?case
  proof (cases "c = LF")
    case True
    let ?n = "length (takeWhile (\<lambda>x. x = LF) cs)"
    let ?r = "replaceNewlineRuns (dropWhile (\<lambda>x. x = LF) cs)"
    have head: "?r = [] \<or> hd ?r \<noteq> LF"
      using dropWhile_LF_head [of cs] by (simp add: replaceNewlineRuns_head)
    have ih: "\<not> hasTripleNewline ?r" using 2(1) True by simp
    have res: "replaceNewlineRuns (c # cs) = replicate (if 2 \<le> ?n then 2 else Suc ?n) LF @ ?r"
      using True takeWhile_LF_replicate [of cs]
      by (simp add: Let_def numeral_2_eq_2)
    show ?thesis
      unfolding res using ih by (simp add: hasTripleNewline_replicate_append [OF head])
  next
    case False
    with 2(2) show ?thesis by (simp add: hasTripleNewline_Cons)
  qed
qed

lemma replaceNewlineRuns_unchanged: "\<not> hasTripleNewline t \<Longrightarrow> replaceNewlineRuns t = t"
proof (induction t rule: replaceNewlineRuns.induct)
  case 1
  then show ?case by simp
next
  case (2 c cs)
  show ?case
  proof (cases "c = LF")
    case True
    from "2.prems" True have short: "\<not> 3 \<le> Suc (length (takeWhile (\<lambda>x. x = LF) cs))"
      and rest: "\<not> hasTripleNewline (dropWhile (\<lambda>x. x = LF) cs)"
      using hasTripleNewline_runs [of "c # cs"] by auto
    from 2(1) True rest have "replaceNewlineRuns (dropWhile (\<lambda>x. x = LF) cs) = dropWhile (\<lambda>x. x = LF) cs"
      by simp
    with True short show ?thesis by (simp add: Let_def)
  next
    case False
    with "2.prems" have "\<not> hasTripleNewline cs" by (simp add: hasTripleNewline_Cons)
    with 2(2) False show ?thesis by simp
  qed
qed

lemma replaceNewlineRuns_append:
  assumes "a = [] \<or> last a \<noteq> LF"
  shows "replaceNewlineRuns (a @ b) = replaceNewlineRuns a @ replaceNewlineRuns b"
  using assms
proof (induction a rule: replaceNewlineRuns.induct)
  case 1
  then show ?case by simp
next
  case (2 c cs)
  show ?case
  proof (cases "c = LF")
    case True
    with "2.prems" have ne: "cs \<noteq> []" and la: "last cs \<noteq> LF"
      by (auto split: if_splits)
    then have mem: "last cs \<in> set cs" by simp
    have tw: "takeWhile (\<lambda>x. x = LF) (cs @ b) = takeWhile (\<lambda>x. x = LF) cs"
      using mem la by (simp add: takeWhile_append1)
    have dw: "dropWhile (\<lambda>x. x = LF) (cs @ b) = dropWhile (\<lambda>x. x = LF) cs @ b"
      using mem la by (simp add: dropWhile_append1)
    have "dropWhile (\<lambda>x. x = LF) cs \<noteq> []" using mem la by auto
    moreover have "last (dropWhile (\<lambda>x. x = LF) cs) = last cs"
      using mem la by (simp add: dropWhile_last)
    ultimately have "replaceNewlineRuns (dropWhile (\<lambda>x. x = LF) cs @ b)
                     = replaceNewlineRuns (dropWhile (\<lambda>x. x = LF) cs) @ replaceNewlineRuns b"
      using 2(1) True la by simp
    with True show ?thesis by (simp add: Let_def tw dw)
  next
    case False
    with "2.prems" have "cs = [] \<or> last cs \<noteq> LF" by (auto split: if_splits)
    with 2(2) False show ?thesis by simp
  qed
qed

lemma replaceNewlineRuns_run:
  assumes "b = [] \<or> hd b \<noteq> LF"
  shows "replaceNewlineRuns (replicate (Suc k) LF @ b)
         = (if 2 \<le> k then [LF, LF] else replicate (Suc k) LF) @ replaceNewlineRuns b"
  by (simp add: runs_append [OF assms] Let_def)

text \<open>The text file a run of \<open>processDocument\<close> writes, whatever happens afterwards.\<close>

lemma processDocument_writes_text:
  assumes found: "find (\<lambda>d. docId d = did) (documents s) = Some d"
      and parse: "parseFile e (docPath d) (docType d) = Inr parsed"
      and wfile: "writeFileError e (textPathOf e did) = None"
  shows "files (snd (processDocument e s did)) (textPathOf e did)
         = Some (Utf8Text (cleanTextLineBreaks parsed))"
proof -
  let ?textPath = "pathJoin e (configGet (UPLOAD_PATH e) (js ''./uploads'')) (did @ js ''-text.txt'')"
  let ?fileId = "case assistantUploadFile e ?textPath of Inr i \<Rightarrow> Some i | Inl err \<Rightarrow> None"
  let ?s3 = "s\<lparr>files := (files s)(?textPath \<mapsto> Utf8Text (cleanTextLineBreaks parsed)),
               remoteCalls := remoteCalls s @ [AssistantUploadFile ?textPath],
               documents :=
                 map (\<lambda>d. if docId d = did
                          then d\<lparr>textFilePath := Some ?textPath, assistantFileId := ?fileId\<rparr>
                          else d)
                     (documents s)\<rparr>"
  let ?data = "vectorData e did d (splitIntoChunks e (cleanTextLineBreaks parsed) 1000)"
  note wfile' = wfile [unfolded textPathOf_def]
  obtain r s4 where up: "upsertVector e ?data ?s3 = (r, s4)"
    by (cases "upsertVector e ?data ?s3")
  from upsertVector_frame [OF up] obtain calls where s4: "s4 = ?s3\<lparr>remoteCalls := calls\<rparr>"
    by blast
  have "files s4 ?textPath = Some (Utf8Text (cleanTextLineBreaks parsed))"
    by (subst s4) simp
  with found parse wfile' up show ?thesis
    unfolding textPathOf_def
    by (cases r) (simp_all add: processDocument_def Let_def updateDocumentStatus_def)
qed

text \<open>
  C10. \<open>cleanTextLineBreaks\<close> replaces a run of three or more newlines that stands between
  a text not ending in a newline and a text not starting with one by two newlines, and
  cleans both sides the same way; it returns a text without three consecutive newlines
  unchanged; its result has no three consecutive newlines; and applying it twice is
  applying it once. In \<open>processDocument\<close>, for a document that exists and whose text was
  extracted, the file written holds the cleaned text, and the texts of the chunks saved by
  a run that returns are the result of chunking the cleaned text.
\<close>

theorem cleanTextLineBreaks_collapses_runs:
  "((a = [] \<or> last a \<noteq> LF) \<and> (b = [] \<or> hd b \<noteq> LF) \<and> 3 \<le> k \<longrightarrow>
      cleanTextLineBreaks (a @ replicate k LF @ b)
      = cleanTextLineBreaks a @ [LF, LF] @ cleanTextLineBreaks b)
   \<and> (\<not> hasTripleNewline t \<longrightarrow> cleanTextLineBreaks t = t)
   \<and> \<not> hasTripleNewline (cleanTextLineBreaks t)
   \<and> cleanTextLineBreaks (cleanTextLineBreaks t) = cleanTextLineBreaks t
   \<and> (\<forall>d parsed.
          find (\<lambda>d. docId d = did) (documents s) = Some d
        \<and> parseFile e (docPath d) (docType d) = Inr parsed
        \<and> writeFileError e (textPathOf e did) = None
        \<longrightarrow> files (snd (processDocument e s did)) (textPathOf e did)
              = Some (Utf8Text (cleanTextLineBreaks parsed))
          \<and> (\<forall>s'. processDocument e s did = (Inr (), s') \<longrightarrow>
                map content (drop (length (chunks s)) (chunks s'))
                = splitIntoChunks e (cleanTextLineBreaks parsed) 1000))"
proof (intro conjI allI impI)
  assume h: "(a = [] \<or> last a \<noteq> LF) \<and> (b = [] \<or> hd b \<noteq> LF) \<and> 3 \<le> k"
  then obtain j where k: "k = Suc j" and j: "2 \<le> j" by (cases k) auto
  from h have "replaceNewlineRuns (a @ replicate k LF @ b)
               = replaceNewlineRuns a @ replaceNewlineRuns (replicate k LF @ b)"
    by (simp add: replaceNewlineRuns_append)
  also from h have "replaceNewlineRuns (replicate k LF @ b) = [LF, LF] @ replaceNewlineRuns b"
    unfolding k using j by (subst replaceNewlineRuns_run) simp_all
  finally show "cleanTextLineBreaks (a @ replicate k LF @ b)
                = cleanTextLineBreaks a @ [LF, LF] @ cleanTextLineBreaks b"
    by (simp add: cleanTextLineBreaks_eq)
next
  assume "\<not> hasTripleNewline t"
  then show "cleanTextLineBreaks t = t"
    by (simp add: cleanTextLineBreaks_eq replaceNewlineRuns_unchanged)
next
  show "\<not> hasTripleNewline (cleanTextLineBreaks t)"
    by (simp add: cleanTextLineBreaks_eq replaceNewlineRuns_no_triple)
next
  show "cleanTextLineBreaks (cleanTextLineBreaks t) = cleanTextLineBreaks t"
    by (simp add: cleanTextLineBreaks_eq replaceNewlineRuns_unchanged replaceNewlineRuns_no_triple)
next
  fix d parsed
  assume h: "find (\<lambda>d. docId d = did) (documents s) = Some d
        \<and> parseFile e (docPath d) (docType d) = Inr parsed
        \<and> writeFileError e (textPathOf e did) = None"
  then show "files (snd (processDocument e s did)) (textPathOf e did)
              = Some (Utf8Text (cleanTextLineBreaks parsed))"
    by (simp add: processDocument_writes_text)
  fix s'
  assume ok: "processDocument e s did = (Inr (), s')"
  from h have found: "find (\<lambda>d. docId d = did) (documents s) = Some d" by simp
  from processDocument_success [OF found ok] h
  obtain ids where "chunks s' = chunks s
              @ chunkEntities e (generated s) did d (pipelineChunks e parsed) ids"
    by auto
  then show "map content (drop (length (chunks s)) (chunks s'))
             = splitIntoChunks e (cleanTextLineBreaks parsed) 1000"
    by (simp add: map_content_chunkEntities pipelineChunks_def)
qed

theorem cleanTextLineBreaks_collapses_runs_witness:
  "cleanTextLineBreaks (js ''a'' @ replicate 4 LF @ js ''b'') = js ''a'' @ [LF, LF] @ js ''b''
   \<and> \<not> hasTripleNewline (js ''a'' @ [LF, LF] @ js ''b'')
   \<and> cleanTextLineBreaks (js ''a'' @ [LF, LF] @ js ''b'') = js ''a'' @ [LF, LF] @ js ''b''
   \<and> files (snd (processDocument geminiEnv readyState (js ''id0''))) (textPathOf geminiEnv (js ''id0''))
       = Some (Utf8Text (cleanTextLineBreaks (js ''Hello world.'')))
   \<and> (\<exists>s'. processDocument geminiEnv readyState (js ''id0'') = (Inr (), s')
         \<and> map content (drop (length (chunks readyState)) (chunks s'))
           = splitIntoChunks geminiEnv (cleanTextLineBreaks (js ''Hello world.'')) 1000)"
proof -
  note thm1 = cleanTextLineBreaks_collapses_runs
    [of "js ''a''" "js ''b''" 4 "js ''a'' @ [LF, LF] @ js ''b''" "js ''id0''" readyState geminiEnv]
  have side: "(js ''a'' = [] \<or> last (js ''a'') \<noteq> LF) \<and> (js ''b'' = [] \<or> hd (js ''b'') \<noteq> LF) \<and> 3 \<le> (4::nat)"
    by (simp add: js_def LF_def)
  have clean1: "cleanTextLineBreaks (js ''a'') = js ''a''" "cleanTextLineBreaks (js ''b'') = js ''b''"
    by (simp_all add: cleanTextLineBreaks_def js_def LF_def)
  from thm1 side clean1
  have a: "cleanTextLineBreaks (js ''a'' @ replicate 4 LF @ js ''b'') = js ''a'' @ [LF, LF] @ js ''b''"
    by simp
  have nt: "\<not> hasTripleNewline (js ''a'' @ [LF, LF] @ js ''b'')"
    by (simp add: js_def LF_def)
  with thm1 have b: "cleanTextLineBreaks (js ''a'' @ [LF, LF] @ js ''b'') = js ''a'' @ [LF, LF] @ js ''b''"
    by blast
  have parse: "parseFile geminiEnv (docPath exampleDocument) (docType exampleDocument)
               = Inr (js ''Hello world.'')"
    by (simp add: geminiEnv_def exampleEnv_def)
  have wfile: "writeFileError geminiEnv (textPathOf geminiEnv (js ''id0'')) = None"
    by (simp add: geminiEnv_def exampleEnv_def)
  have conf: "configuredIndexes geminiEnv \<noteq> []"
    by (simp add: configuredIndexes_geminiEnv configuredIndexes_exampleEnv)
  from processDocument_runs [OF find_readyState parse wfile accepted_geminiEnv conf]
  obtain s' where run: "processDocument geminiEnv readyState (js ''id0'') = (Inr (), s')"
    by blast
  from thm1 find_readyState parse wfile
  have c: "files (snd (processDocument geminiEnv readyState (js ''id0''))) (textPathOf geminiEnv (js ''id0''))
              = Some (Utf8Text (cleanTextLineBreaks (js ''Hello world.'')))
          \<and> (\<forall>s'. processDocument geminiEnv readyState (js ''id0'') = (Inr (), s') \<longrightarrow>
                map content (drop (length (chunks readyState)) (chunks s'))
                = splitIntoChunks geminiEnv (cleanTextLineBreaks (js ''Hello world.'')) 1000)"
    by blast
  with run a nt b show ?thesis by blast
qed

text \<open>
  C4 (the code at a concrete input). A ready document with one chunk is reprocessed and
  its pipeline runs to the end: the chunk table then holds two rows for the document, both
  with index 0 and the same vector identifier, and no call that deletes vectors was issued.
\<close>

theorem reprocess_keeps_previous_chunks:
  "map pineconeId
      (chunks (backgroundProcess geminiEnv
                 (snd (reprocessDocument geminiEnv readyState (js ''id0'') (js ''u1''))) (js ''id0'')))
     = [js ''id0_chunk_0'', js ''id0_chunk_0'']
   \<and> map chunkIndex
      (chunks (backgroundProcess geminiEnv
                 (snd (reprocessDocument geminiEnv readyState (js ''id0'') (js ''u1''))) (js ''id0'')))
     = [0, 0]
   \<and> filter isDeleteCall
      (remoteCalls (backgroundProcess geminiEnv
                 (snd (reprocessDocument geminiEnv readyState (js ''id0'') (js ''u1''))) (js ''id0'')))
     = []"
proof -
  let ?d = "exampleDocument\<lparr>status := StatusProcessing\<rparr>"
  let ?s1 = "readyState\<lparr>documents := [?d]\<rparr>"
  have s1: "snd (reprocessDocument geminiEnv readyState (js ''id0'') (js ''u1'')) = ?s1"
    by (simp add: reprocessDocument_def getDocument_readyState Let_def)
       (simp add: readyState_def)
  have found: "find (\<lambda>d. docId d = js ''id0'') (documents ?s1) = Some ?d"
    by (simp add: exampleDocument_def)
  have parse: "parseFile geminiEnv (docPath ?d) (docType ?d) = Inr (js ''Hello world.'')"
    by (simp add: geminiEnv_def exampleEnv_def)
  have wfile: "writeFileError geminiEnv (textPathOf geminiEnv (js ''id0'')) = None"
    by (simp add: geminiEnv_def exampleEnv_def)
  have conf: "configuredIndexes geminiEnv \<noteq> []"
    by (simp add: configuredIndexes_geminiEnv configuredIndexes_exampleEnv)
  from processDocument_runs [OF found parse wfile accepted_geminiEnv conf]
  obtain s' where run: "processDocument geminiEnv ?s1 (js ''id0'') = (Inr (), s')"
    and ch: "chunks s' = chunks ?s1
               @ chunkEntities geminiEnv (generated ?s1) (js ''id0'') ?d
                   (pipelineChunks geminiEnv (js ''Hello world.''))
                   (filter (\<lambda>i. i \<noteq> [])
                      (map itemId (pipelineData geminiEnv (js ''id0'') ?d (js ''Hello world.''))))"
    and calls: "remoteCalls s' = remoteCalls ?s1 @ [AssistantUploadFile (textPathOf geminiEnv (js ''id0''))]
                 @ map (upsertCall (pipelineData geminiEnv (js ''id0'') ?d (js ''Hello world.'')))
                       (forIn (configuredIndexes geminiEnv))"
    by blast
  have bg: "backgroundProcess geminiEnv ?s1 (js ''id0'') = s'"
    using run by (simp add: backgroundProcess_def)
  have idz: "chunkPineconeId (js ''id0'') 0 = js ''id0_chunk_0''"
    by (simp add: chunkPineconeId_def numberToString.simps js_def digitChar_def)
  have ids: "map itemId (pipelineData geminiEnv (js ''id0'') ?d (js ''Hello world.'')) = [js ''id0_chunk_0'']"
    by (simp add: pipelineData_def pipelineChunks_geminiEnv vectorData_def idz)
  have ne: "js ''id0_chunk_0'' \<noteq> []" by (simp add: js_def)
  have old: "chunks ?s1 = [exampleChunk]" by (simp add: readyState_def)
  have p1: "map pineconeId (chunks s') = [js ''id0_chunk_0'', js ''id0_chunk_0'']"
    by (simp add: ch old ids ne pipelineChunks_geminiEnv chunkEntities_def exampleChunk_def)
  have p2: "map chunkIndex (chunks s') = [0, 0]"
    by (simp add: ch old ids ne pipelineChunks_geminiEnv chunkEntities_def exampleChunk_def)
  have "filter isDeleteCall (map (upsertCall v) ixs) = []" for v ixs
    by (induction ixs) (simp_all add: upsertCall_def)
  then have p3: "filter isDeleteCall (remoteCalls s') = []"
    by (simp add: calls readyState_def)
  from p1 p2 p3 show ?thesis by (simp add: s1 bg)
qed


section \<open>Words and trimming\<close>

lemma splitSpaces_unfold:
  "splitSpaces acc s
   = (case dropWhile (\<lambda>c. \<not> isSpace c) s of
        [] \<Rightarrow> [acc @ s]
      | r # rs \<Rightarrow> (acc @ takeWhile (\<lambda>c. \<not> isSpace c) s) # splitSpaces [] (dropWhile isSpace rs))"
proof (induction s arbitrary: acc)
  case Nil
  then show ?case by simp
next
  case (Cons c cs)
  show ?case
  proof (cases "isSpace c")
    case True
    then show ?thesis by simp
  next
    case False
    then have "splitSpaces acc (c # cs) = splitSpaces (acc @ [c]) cs" by simp
    also note Cons.IH [of "acc @ [c]"]
    finally show ?thesis
      using False
      by (cases "dropWhile (\<lambda>c. \<not> isSpace c) cs") (simp_all del: dropWhile_eq_Nil_conv)
  qed
qed

lemma splitSpaces_not_Nil: "splitSpaces acc s \<noteq> []"
  by (induction s arbitrary: acc) simp_all

lemma wordsOf_Nil: "wordsOf [] = []"
  by (simp add: wordsOf_def)

lemma wordsOf_dropWhile_space: "wordsOf (dropWhile isSpace s) = wordsOf s"
proof (induction s)
  case Nil
  then show ?case by simp
next
  case (Cons c cs)
  then show ?case by (simp add: wordsOf_def)
qed

lemma wordsOf_space_Cons: "isSpace c \<Longrightarrow> wordsOf (c # cs) = wordsOf cs"
  using wordsOf_dropWhile_space [of "c # cs"] wordsOf_dropWhile_space [of cs] by simp

lemma wordsOf_word_Cons:
  assumes "\<not> isSpace c"
  shows "wordsOf (c # cs)
         = (c # takeWhile (\<lambda>x. \<not> isSpace x) cs) # wordsOf (dropWhile (\<lambda>x. \<not> isSpace x) cs)"
proof (cases "dropWhile (\<lambda>x. \<not> isSpace x) cs")
  case Nil
  then have tw: "takeWhile (\<lambda>x. \<not> isSpace x) cs = cs"
    by (metis append_Nil2 takeWhile_dropWhile_id)
  have "splitSpaces [] (c # cs) = [c # cs]"
    using assms Nil
    by (subst splitSpaces_unfold) (simp del: dropWhile_eq_Nil_conv)
  then show ?thesis
    unfolding Nil tw by (simp add: wordsOf_def)
next
  case (Cons r rs)
  then have sp: "isSpace r" by (metis hd_dropWhile list.sel(1) list.distinct(1))
  have w: "wordsOf (dropWhile isSpace rs) = wordsOf (r # rs)"
    using sp by (simp add: wordsOf_dropWhile_space wordsOf_space_Cons)
  have "splitSpaces [] (c # cs)
        = (c # takeWhile (\<lambda>x. \<not> isSpace x) cs) # splitSpaces [] (dropWhile isSpace rs)"
    using assms Cons
    by (subst splitSpaces_unfold) (simp del: dropWhile_eq_Nil_conv)
  then have "wordsOf (c # cs)
             = (c # takeWhile (\<lambda>x. \<not> isSpace x) cs) # wordsOf (dropWhile isSpace rs)"
    by (simp add: wordsOf_def)
  with w Cons show ?thesis by simp
qed

lemma wordsOf_all_space: "\<forall>c\<in>set s. isSpace c \<Longrightarrow> wordsOf s = []"
  by (induction s) (simp_all add: wordsOf_Nil wordsOf_space_Cons)

lemma wordsOf_single_word:
  assumes "w \<noteq> []" and "\<forall>c\<in>set w. \<not> isSpace c"
  shows "wordsOf w = [w]"
proof -
  from assms obtain c cs where w: "w = c # cs" by (cases w) auto
  with assms have c: "\<not> isSpace c"
    and tw: "takeWhile (\<lambda>x. \<not> isSpace x) cs = cs"
    and dw: "dropWhile (\<lambda>x. \<not> isSpace x) cs = []"
    by auto
  show ?thesis
    unfolding w wordsOf_word_Cons [OF c] tw dw by (simp add: wordsOf_Nil)
qed

lemma wordsOf_snoc_space:
  "isSpace x \<Longrightarrow> wordsOf (s @ [x]) = wordsOf s"
proof (induction s rule: length_induct)
  case (1 s)
  show ?case
  proof (cases s)
    case Nil
    with 1 show ?thesis by (simp add: wordsOf_space_Cons)
  next
    case (Cons c cs)
    show ?thesis
    proof (cases "isSpace c")
      case True
      with 1 Cons show ?thesis by (simp add: wordsOf_space_Cons)
    next
      case False
      let ?d = "dropWhile (\<lambda>x. \<not> isSpace x) cs"
      have tw: "takeWhile (\<lambda>c. \<not> isSpace c) (cs @ [x]) = takeWhile (\<lambda>c. \<not> isSpace c) cs"
        using 1(2) by (induction cs) simp_all
      have dw: "dropWhile (\<lambda>c. \<not> isSpace c) (cs @ [x]) = ?d @ [x]"
        using 1(2) by (induction cs) simp_all
      have "length ?d < length s" using Cons by (simp add: less_Suc_eq_le length_dropWhile_le)
      with 1 have "wordsOf (?d @ [x]) = wordsOf ?d" by blast
      with False Cons show ?thesis by (simp add: wordsOf_word_Cons tw dw)
    qed
  qed
qed

lemma wordsOf_append_spaces:
  "\<forall>c\<in>set sp. isSpace c \<Longrightarrow> wordsOf (s @ sp) = wordsOf s"
proof (induction sp rule: rev_induct)
  case Nil
  then show ?case by simp
next
  case (snoc x xs)
  then have x: "isSpace x" and rest: "\<forall>c\<in>set xs. isSpace c" by simp_all
  from x have "wordsOf ((s @ xs) @ [x]) = wordsOf (s @ xs)" by (rule wordsOf_snoc_space)
  with snoc.IH [OF rest] show ?case by simp
qed

lemma wordsOf_append:
  assumes "a = [] \<or> isSpace (last a)"
  shows "wordsOf (a @ b) = wordsOf a @ wordsOf b"
  using assms
proof (induction a rule: length_induct)
  case (1 a)
  show ?case
  proof (cases a)
    case Nil
    then show ?thesis by (simp add: wordsOf_Nil)
  next
    case (Cons c cs)
    show ?thesis
    proof (cases "isSpace c")
      case True
      from Cons 1(2) have "cs = [] \<or> isSpace (last cs)" by (auto split: if_splits)
      moreover have "length cs < length a" using Cons by simp
      ultimately have "wordsOf (cs @ b) = wordsOf cs @ wordsOf b" using 1(1) by blast
      with True Cons show ?thesis by (simp add: wordsOf_space_Cons)
    next
      case False
      with Cons 1(2) have ne: "cs \<noteq> []" and la: "isSpace (last cs)" by (auto split: if_splits)
      then have mem: "last cs \<in> set cs" by simp
      let ?d = "dropWhile (\<lambda>x. \<not> isSpace x) cs"
      have tw: "takeWhile (\<lambda>c. \<not> isSpace c) (cs @ b) = takeWhile (\<lambda>c. \<not> isSpace c) cs"
        using mem la by (simp add: takeWhile_append1)
      have dw: "dropWhile (\<lambda>c. \<not> isSpace c) (cs @ b) = ?d @ b"
        using mem la by (simp add: dropWhile_append1)
      have "?d \<noteq> []" using mem la by auto
      moreover have "last ?d = last cs" using mem la by (simp add: dropWhile_last)
      moreover have "length ?d < length a" using Cons by (simp add: less_Suc_eq_le length_dropWhile_le)
      ultimately have "wordsOf (?d @ b) = wordsOf ?d @ wordsOf b" using 1(1) la by metis
      with False Cons show ?thesis by (simp add: wordsOf_word_Cons tw dw)
    qed
  qed
qed

lemma trimEnd_decompose: "s = trimEnd s @ rev (takeWhile isSpace (rev s))"
proof -
  have "trimEnd s @ rev (takeWhile isSpace (rev s))
        = rev (takeWhile isSpace (rev s) @ dropWhile isSpace (rev s))"
    unfolding trimEnd_def by (rule rev_append [symmetric])
  also have "\<dots> = rev (rev s)" by (simp only: takeWhile_dropWhile_id)
  finally show ?thesis by simp
qed

lemma wordsOf_trimEnd: "wordsOf (trimEnd s) = wordsOf s"
proof -
  have "\<forall>c\<in>set (rev (takeWhile isSpace (rev s))). isSpace c"
    by (auto dest: set_takeWhileD)
  from wordsOf_append_spaces [OF this, of "trimEnd s"] trimEnd_decompose [of s]
  show ?thesis by simp
qed

lemma trim_eq: "trim s = trimEnd (dropWhile isSpace s)"
  by (simp add: trim_def trimEnd_def)

lemma wordsOf_trim: "wordsOf (trim s) = wordsOf s"
  by (simp add: trim_eq wordsOf_trimEnd wordsOf_dropWhile_space)

lemma length_trimEnd_le: "length (trimEnd s) \<le> length s"
  using length_dropWhile_le [of isSpace "rev s"] by (simp add: trimEnd_def)

lemma length_trim_le: "length (trim s) \<le> length s"
  using length_trimEnd_le [of "dropWhile isSpace s"] length_dropWhile_le [of isSpace s]
  by (simp add: trim_eq)

lemma length_trimEnd_less:
  assumes "s \<noteq> []" and "isSpace (last s)"
  shows "length (trimEnd s) < length s"
proof -
  from assms obtain ys y where s: "s = ys @ [y]" and y: "isSpace y"
    by (cases s rule: rev_cases) auto
  have "length (dropWhile isSpace (rev ys)) \<le> length ys"
    using length_dropWhile_le [of isSpace "rev ys"] by simp
  with s y show ?thesis by (simp add: trimEnd_def)
qed

lemma length_trim_less:
  assumes "s \<noteq> []" and "isSpace (last s)"
  shows "length (trim s) < length s"
proof (cases "\<forall>c\<in>set s. isSpace c")
  case True
  then have dw: "dropWhile isSpace s = []" by simp
  have "trim s = []" unfolding trim_def dw by simp
  with assms show ?thesis by simp
next
  case False
  then obtain c where c: "c \<in> set s" "\<not> isSpace c" by blast
  then have ne: "dropWhile isSpace s \<noteq> []" by auto
  from c have "last (dropWhile isSpace s) = last s" by (rule dropWhile_last)
  with ne assms have "length (trimEnd (dropWhile isSpace s)) < length (dropWhile isSpace s)"
    by (simp add: length_trimEnd_less)
  with length_dropWhile_le [of isSpace s] show ?thesis by (simp add: trim_eq)
qed


section \<open>Properties of getLastWords\<close>

lemma isSpace_SP: "isSpace SP"
  by (simp add: isSpace_def SP_def)

lemma isSpace_LF: "isSpace LF"
  by (simp add: isSpace_def LF_def)

lemma lineTerminator_LF: "isLineTerminator LF"
  by (simp add: isLineTerminator_def LF_def)

lemma splitSpaces_words_have_no_space:
  "\<forall>c\<in>set acc. \<not> isSpace c \<Longrightarrow> \<forall>w\<in>set (splitSpaces acc s). \<forall>c\<in>set w. \<not> isSpace c"
proof (induction s arbitrary: acc rule: length_induct)
  case (1 s)
  show ?case
  proof (cases s)
    case Nil
    with 1(2) show ?thesis by simp
  next
    case (Cons c cs)
    show ?thesis
    proof (cases "isSpace c")
      case True
      have "length (dropWhile isSpace cs) < length s"
        using Cons length_dropWhile_le [of isSpace cs] by simp
      from 1(1) [rule_format, OF this, of "[]"]
      have "\<forall>w\<in>set (splitSpaces [] (dropWhile isSpace cs)). \<forall>c\<in>set w. \<not> isSpace c"
        by simp
      with True Cons 1(2) show ?thesis by simp
    next
      case False
      have "length cs < length s" using Cons by simp
      moreover have "\<forall>x\<in>set (acc @ [c]). \<not> isSpace x" using False 1(2) by simp
      ultimately have "\<forall>w\<in>set (splitSpaces (acc @ [c]) cs). \<forall>c\<in>set w. \<not> isSpace c"
        using 1(1) by blast
      with False Cons show ?thesis by simp
    qed
  qed
qed

text \<open>Words joined the way the loop of \<open>getLastWords\<close> joins them.\<close>

lemma joined_last:
  "ws \<noteq> [] \<Longrightarrow> concat (map (\<lambda>w. w @ [SP]) ws) \<noteq> [] \<and> last (concat (map (\<lambda>w. w @ [SP]) ws)) = SP"
  by (cases ws rule: rev_cases) simp_all

lemma wordsOf_joined:
  "\<forall>w\<in>set ws. \<forall>c\<in>set w. \<not> isSpace c \<Longrightarrow>
   wordsOf (concat (map (\<lambda>w. w @ [SP]) ws)) = filter (\<lambda>w. w \<noteq> []) ws"
proof (induction ws)
  case Nil
  then show ?case by (simp add: wordsOf_Nil)
next
  case (Cons w ws)
  have "wordsOf ((w @ [SP]) @ concat (map (\<lambda>w. w @ [SP]) ws))
        = wordsOf (w @ [SP]) @ wordsOf (concat (map (\<lambda>w. w @ [SP]) ws))"
    by (rule wordsOf_append) (simp add: isSpace_SP)
  moreover have "wordsOf (w @ [SP]) = wordsOf w"
    by (simp add: wordsOf_snoc_space isSpace_SP)
  moreover have "wordsOf w = (if w = [] then [] else [w])"
    using Cons.prems by (simp add: wordsOf_Nil wordsOf_single_word)
  ultimately show ?case using Cons by simp
qed

lemma lastWordsLoop_length:
  "length res \<le> m \<Longrightarrow> length (lastWordsLoop rws m res) \<le> m"
  by (induction rws m res rule: lastWordsLoop.induct) (simp_all add: Let_def)

text \<open>The loop takes words from the front of its (reversed) list until one does not fit.\<close>

lemma lastWordsLoop_shape:
  "\<exists>taken rest. rws = taken @ rest
     \<and> lastWordsLoop rws m res = concat (map (\<lambda>w. w @ [SP]) (rev taken)) @ res
     \<and> (rest = [] \<or> m < length (hd rest @ [SP] @ concat (map (\<lambda>w. w @ [SP]) (rev taken)) @ res))"
proof (induction rws arbitrary: res)
  case Nil
  then show ?case by simp
next
  case (Cons w ws)
  show ?case
  proof (cases "m < length (w @ [SP] @ res)")
    case True
    then have "w # ws = [] @ (w # ws)
       \<and> lastWordsLoop (w # ws) m res = concat (map (\<lambda>w. w @ [SP]) (rev [])) @ res
       \<and> (w # ws = [] \<or> m < length (hd (w # ws) @ [SP] @ concat (map (\<lambda>w. w @ [SP]) (rev [])) @ res))"
      by (simp add: Let_def)
    then show ?thesis by blast
  next
    case False
    from Cons.IH [of "w @ [SP] @ res"] obtain taken rest
      where ws: "ws = taken @ rest"
        and r: "lastWordsLoop ws m (w @ [SP] @ res)
                = concat (map (\<lambda>w. w @ [SP]) (rev taken)) @ w @ [SP] @ res"
        and mx: "rest = [] \<or> m < length (hd rest @ [SP] @ concat (map (\<lambda>w. w @ [SP]) (rev taken)) @ w @ [SP] @ res)"
      by blast
    from False ws r mx
    have "w # ws = (w # taken) @ rest
       \<and> lastWordsLoop (w # ws) m res = concat (map (\<lambda>w. w @ [SP]) (rev (w # taken))) @ res
       \<and> (rest = [] \<or> m < length (hd rest @ [SP] @ concat (map (\<lambda>w. w @ [SP]) (rev (w # taken))) @ res))"
      by (simp add: Let_def)
    then show ?thesis by blast
  qed
qed

lemma sentenceGroup_Some:
  assumes "sentenceGroup rest = Some g"
  shows "\<exists>sp. rest = sp @ g \<and> sp \<noteq> [] \<and> (\<forall>c\<in>set sp. isSpace c) \<and> g \<noteq> []
            \<and> \<not> isLineTerminator (last g)"
proof -
  define ws where "ws = takeWhile isSpace rest"
  define r where "r = dropWhile isSpace rest"
  have rest: "rest = ws @ r" by (simp add: ws_def r_def)
  have spaces: "\<forall>c\<in>set ws. isSpace c" by (auto simp: ws_def dest: set_takeWhileD)
  have "sentenceGroup rest
        = (if ws = [] then None
           else if r \<noteq> [] then (if list_ex isLineTerminator r then None else Some r)
           else if 2 \<le> length ws \<and> \<not> isLineTerminator (last ws) then Some [last ws]
           else None)"
    by (simp only: sentenceGroup_def Let_def ws_def r_def)
  with assms have cases: "ws \<noteq> [] \<and>
      ((r \<noteq> [] \<and> \<not> list_ex isLineTerminator r \<and> g = r)
       \<or> (r = [] \<and> 2 \<le> length ws \<and> \<not> isLineTerminator (last ws) \<and> g = [last ws]))"
    by (auto split: if_splits)
  show ?thesis
  proof (cases "r = []")
    case True
    with cases have len: "2 \<le> length ws" and nl: "\<not> isLineTerminator (last ws)" and g: "g = [last ws]"
      by auto
    from len obtain b x where ws: "ws = b @ [x]" and b: "b \<noteq> []"
      by (cases ws rule: rev_cases) fastforce+
    from ws spaces have "\<forall>c\<in>set b. isSpace c" by simp
    moreover from rest True ws g have "rest = b @ g" by simp
    moreover from g nl have "g \<noteq> []" "\<not> isLineTerminator (last g)" by simp_all
    ultimately show ?thesis using b by blast
  next
    case False
    with cases have ne: "ws \<noteq> []" and nl: "\<not> list_ex isLineTerminator r" and g: "g = r"
      by auto
    from False nl have "\<not> isLineTerminator (last r)" by (auto simp: list_ex_iff)
    with rest g False ne spaces show ?thesis by blast
  qed
qed

lemma sentenceMatch_Some:
  "sentenceMatch s = Some g \<Longrightarrow>
   \<exists>pre x. s = pre @ x # g \<and> isSpace x \<and> pre \<noteq> [] \<and> g \<noteq> [] \<and> \<not> isLineTerminator (last g)"
proof (induction s)
  case Nil
  then show ?case by simp
next
  case (Cons c cs)
  show ?case
  proof (cases "isSentenceEnd c \<and> sentenceGroup cs \<noteq> None")
    case True
    with Cons.prems have "sentenceGroup cs = Some g" by auto
    from sentenceGroup_Some [OF this] obtain sp
      where cs: "cs = sp @ g" and sp: "sp \<noteq> []" "\<forall>c\<in>set sp. isSpace c"
        and g: "g \<noteq> []" "\<not> isLineTerminator (last g)"
      by blast
    from sp have "sp = butlast sp @ [last sp]" and "isSpace (last sp)" by simp_all
    with cs have "c # cs = (c # butlast sp) @ last sp # g" by simp
    with \<open>isSpace (last sp)\<close> g show ?thesis by blast
  next
    case False
    with Cons.prems have "sentenceMatch cs = Some g" by (auto split: option.splits if_splits)
    from Cons.IH [OF this] obtain pre x
      where "cs = pre @ x # g" "isSpace x" "g \<noteq> []" "\<not> isLineTerminator (last g)"
      by blast
    then have "c # cs = (c # pre) @ x # g" by simp
    with \<open>isSpace x\<close> \<open>g \<noteq> []\<close> \<open>\<not> isLineTerminator (last g)\<close> show ?thesis by blast
  qed
qed

lemma sentenceMatch_ends_with_line_terminator:
  assumes "s \<noteq> []" and "isLineTerminator (last s)"
  shows "sentenceMatch s = None"
proof (rule ccontr)
  assume "sentenceMatch s \<noteq> None"
  then obtain g where "sentenceMatch s = Some g" by auto
  from sentenceMatch_Some [OF this] obtain pre x
    where "s = pre @ x # g" "g \<noteq> []" "\<not> isLineTerminator (last g)"
    by blast
  with assms show False by simp
qed

lemma suffix_sliceLast: "suffix (sliceLast m t) t"
  by (simp add: sliceLast_def suffix_drop)

lemma length_sliceLast: "0 < m \<Longrightarrow> m \<le> length t \<Longrightarrow> length (sliceLast m t) = m"
  by (simp add: sliceLast_def)

text \<open>The three cases of \<open>getLastWords\<close>.\<close>

lemma getLastWords_fits: "length t \<le> m \<Longrightarrow> getLastWords t m = t"
  by (simp add: getLastWords_def)

lemma getLastWords_sentence:
  "m < length t \<Longrightarrow> sentenceMatch (sliceLast m t) = Some g \<Longrightarrow> getLastWords t m = g @ [SP]"
  by (simp add: getLastWords_def)

lemma getLastWords_words:
  "m < length t \<Longrightarrow> sentenceMatch (sliceLast m t) = None \<Longrightarrow>
   getLastWords t m = trim (lastWordsLoop (rev (splitSpaces [] t)) m []) @ [SP]"
  by (simp add: getLastWords_def Let_def)

text \<open>What the word loop returns for the words of a text.\<close>

lemma lastWords_of_text:
  "\<exists>ws. suffix ws (splitSpaces [] t)
     \<and> lastWordsLoop (rev (splitSpaces [] t)) m [] = concat (map (\<lambda>w. w @ [SP]) ws)
     \<and> (ws = splitSpaces [] t
        \<or> (\<exists>w. suffix (w # ws) (splitSpaces [] t)
               \<and> m < length (concat (map (\<lambda>w. w @ [SP]) (w # ws)))))"
proof -
  from lastWordsLoop_shape [of "rev (splitSpaces [] t)" m "[]"] obtain taken rest
    where dec: "rev (splitSpaces [] t) = taken @ rest"
      and r0: "lastWordsLoop (rev (splitSpaces [] t)) m [] = concat (map (\<lambda>w. w @ [SP]) (rev taken)) @ []"
      and mx0: "rest = [] \<or> m < length (hd rest @ [SP] @ concat (map (\<lambda>w. w @ [SP]) (rev taken)) @ [])"
    by blast
  from r0 have r: "lastWordsLoop (rev (splitSpaces [] t)) m [] = concat (map (\<lambda>w. w @ [SP]) (rev taken))"
    by simp
  from mx0 have mx: "rest = [] \<or> m < length (hd rest @ [SP] @ concat (map (\<lambda>w. w @ [SP]) (rev taken)))"
    by simp
  from dec have words: "splitSpaces [] t = rev rest @ rev taken"
    by (metis rev_append rev_rev_ident)
  then have suf: "suffix (rev taken) (splitSpaces [] t)" by (simp add: suffix_def)
  show ?thesis
  proof (cases rest)
    case Nil
    with words have "rev taken = splitSpaces [] t" by simp
    with r suf show ?thesis by blast
  next
    case (Cons w rest')
    with words have "splitSpaces [] t = rev rest' @ (w # rev taken)" by simp
    then have "suffix (w # rev taken) (splitSpaces [] t)" by (simp add: suffix_def)
    moreover from mx Cons have "m < length (concat (map (\<lambda>w. w @ [SP]) (w # rev taken)))" by simp
    ultimately show ?thesis using r suf by blast
  qed
qed

lemma getLastWords_length:
  assumes "1 \<le> m"
  shows "length (getLastWords t m) \<le> m"
proof (cases "length t \<le> m")
  case True
  then show ?thesis by (simp add: getLastWords_fits)
next
  case False
  then have long: "m < length t" by simp
  show ?thesis
  proof (cases "sentenceMatch (sliceLast m t)")
    case (Some g)
    from sentenceMatch_Some [OF Some] obtain pre x
      where "sliceLast m t = pre @ x # g" "pre \<noteq> []"
      by blast
    then have "length g + 2 \<le> length (sliceLast m t)"
      by (cases pre) simp_all
    with assms long have "length g + 2 \<le> m" by (simp add: length_sliceLast)
    with long Some show ?thesis by (simp add: getLastWords_sentence)
  next
    case None
    let ?r = "lastWordsLoop (rev (splitSpaces [] t)) m []"
    have len: "length ?r \<le> m" by (rule lastWordsLoop_length) simp
    have "length (trim ?r) + 1 \<le> m"
    proof (cases "?r = []")
      case True
      have "trim [] = ([]::jsstring)" by (simp add: trim_def)
      with True assms show ?thesis by simp
    next
      case False
      from lastWords_of_text [of t m] obtain ws where r: "?r = concat (map (\<lambda>w. w @ [SP]) ws)"
        by blast
      with False have "ws \<noteq> []" by auto
      from joined_last [OF this] r have "isSpace (last ?r)" by (simp add: isSpace_SP)
      with False have "length (trim ?r) < length ?r" by (rule length_trim_less)
      with len show ?thesis by simp
    qed
    with long None show ?thesis by (simp add: getLastWords_words)
  qed
qed

lemma getLastWords_wordsOf:
  "suffix (wordsOf (getLastWords t m)) (wordsOf t)"
proof (cases "length t \<le> m")
  case True
  then show ?thesis by (simp add: getLastWords_fits)
next
  case False
  then have long: "m < length t" by simp
  show ?thesis
  proof (cases "sentenceMatch (sliceLast m t)")
    case (Some g)
    from sentenceMatch_Some [OF Some] obtain pre x
      where sl: "sliceLast m t = pre @ x # g" and x: "isSpace x"
      by blast
    from suffix_sliceLast [of m t] obtain front where "t = front @ sliceLast m t"
      by (auto simp: suffix_def)
    with sl have t: "t = (front @ pre @ [x]) @ g" by simp
    have "wordsOf ((front @ pre @ [x]) @ g) = wordsOf (front @ pre @ [x]) @ wordsOf g"
      by (rule wordsOf_append) (simp add: x)
    with t have "suffix (wordsOf g) (wordsOf t)" by (simp add: suffix_def)
    moreover have "wordsOf (g @ [SP]) = wordsOf g" by (simp add: wordsOf_snoc_space isSpace_SP)
    ultimately show ?thesis using long Some by (simp add: getLastWords_sentence)
  next
    case None
    from lastWords_of_text [of t m] obtain ws
      where suf: "suffix ws (splitSpaces [] t)"
        and r: "lastWordsLoop (rev (splitSpaces [] t)) m [] = concat (map (\<lambda>w. w @ [SP]) ws)"
      by blast
    have "\<forall>w\<in>set (splitSpaces [] t). \<forall>c\<in>set w. \<not> isSpace c"
      by (rule splitSpaces_words_have_no_space) simp
    with suf have "\<forall>w\<in>set ws. \<forall>c\<in>set w. \<not> isSpace c"
      by (auto simp: suffix_def)
    then have "wordsOf (concat (map (\<lambda>w. w @ [SP]) ws)) = filter (\<lambda>w. w \<noteq> []) ws"
      by (rule wordsOf_joined)
    then have "wordsOf (getLastWords t m) = filter (\<lambda>w. w \<noteq> []) ws"
      using long None r
      by (simp add: getLastWords_words wordsOf_snoc_space isSpace_SP wordsOf_trim)
    with filter_mono_suffix [OF suf, of "\<lambda>w. w \<noteq> []"] show ?thesis
      by (simp add: wordsOf_def)
  qed
qed

text \<open>
  C8 (as the code has it). For a maximal length of at least one, \<open>getLastWords\<close> returns a
  string no longer than the maximal length. For every maximal length its words are the
  last words of the text, whole and in order. It returns the text itself when the text
  fits. Otherwise, when the last \<open>maxLength\<close> characters hold a sentence end followed by
  white space and a rest without line terminator, it returns that rest, which is the end
  of the text and starts after white space, and a space. Otherwise it returns the trailing
  words that fit with one space after each -- as many as fit, the next word would exceed
  the maximal length -- trimmed and followed by a space; when not even the last word fits,
  that is a single space: there is no hard cut inside a word.
\<close>

theorem getLastWords_trailing_words:
  "(1 \<le> m \<longrightarrow> length (getLastWords t m) \<le> m)
   \<and> suffix (wordsOf (getLastWords t m)) (wordsOf t)
   \<and> (length t \<le> m \<longrightarrow> getLastWords t m = t)
   \<and> (\<forall>g. m < length t \<and> sentenceMatch (sliceLast m t) = Some g \<longrightarrow>
          getLastWords t m = g @ [SP] \<and> (\<exists>pre x. t = pre @ x # g \<and> isSpace x))
   \<and> (m < length t \<and> sentenceMatch (sliceLast m t) = None \<longrightarrow>
        (\<exists>ws. suffix ws (splitSpaces [] t)
           \<and> getLastWords t m = trim (concat (map (\<lambda>w. w @ [SP]) ws)) @ [SP]
           \<and> length (concat (map (\<lambda>w. w @ [SP]) ws)) \<le> m
           \<and> (ws = splitSpaces [] t
              \<or> (\<exists>w. suffix (w # ws) (splitSpaces [] t)
                     \<and> m < length (concat (map (\<lambda>w. w @ [SP]) (w # ws)))))))
   \<and> (m < length t \<and> sentenceMatch (sliceLast m t) = None
        \<and> m < Suc (length (last (splitSpaces [] t))) \<longrightarrow> getLastWords t m = [SP])"
proof (intro conjI allI impI)
  assume "1 \<le> m"
  then show "length (getLastWords t m) \<le> m" by (rule getLastWords_length)
next
  show "suffix (wordsOf (getLastWords t m)) (wordsOf t)" by (rule getLastWords_wordsOf)
next
  assume "length t \<le> m"
  then show "getLastWords t m = t" by (rule getLastWords_fits)
next
  fix g
  assume h: "m < length t \<and> sentenceMatch (sliceLast m t) = Some g"
  then show "getLastWords t m = g @ [SP]" by (simp add: getLastWords_sentence)
  from h sentenceMatch_Some [of "sliceLast m t" g] obtain pre x
    where sl: "sliceLast m t = pre @ x # g" and x: "isSpace x"
    by blast
  from suffix_sliceLast [of m t] obtain front where "t = front @ sliceLast m t"
    by (auto simp: suffix_def)
  with sl have "t = (front @ pre) @ x # g" by simp
  with x show "\<exists>pre x. t = pre @ x # g \<and> isSpace x" by blast
next
  assume h: "m < length t \<and> sentenceMatch (sliceLast m t) = None"
  from lastWords_of_text [of t m] obtain ws
    where suf: "suffix ws (splitSpaces [] t)"
      and r: "lastWordsLoop (rev (splitSpaces [] t)) m [] = concat (map (\<lambda>w. w @ [SP]) ws)"
      and mx: "ws = splitSpaces [] t
        \<or> (\<exists>w. suffix (w # ws) (splitSpaces [] t)
               \<and> m < length (concat (map (\<lambda>w. w @ [SP]) (w # ws))))"
    by blast
  have "length (lastWordsLoop (rev (splitSpaces [] t)) m []) \<le> m"
    by (rule lastWordsLoop_length) simp
  with r have "length (concat (map (\<lambda>w. w @ [SP]) ws)) \<le> m" by simp
  moreover from h r have "getLastWords t m = trim (concat (map (\<lambda>w. w @ [SP]) ws)) @ [SP]"
    by (simp add: getLastWords_words)
  ultimately show "\<exists>ws. suffix ws (splitSpaces [] t)
           \<and> getLastWords t m = trim (concat (map (\<lambda>w. w @ [SP]) ws)) @ [SP]
           \<and> length (concat (map (\<lambda>w. w @ [SP]) ws)) \<le> m
           \<and> (ws = splitSpaces [] t
              \<or> (\<exists>w. suffix (w # ws) (splitSpaces [] t)
                     \<and> m < length (concat (map (\<lambda>w. w @ [SP]) (w # ws)))))"
    using suf mx by blast
next
  assume h: "m < length t \<and> sentenceMatch (sliceLast m t) = None
        \<and> m < Suc (length (last (splitSpaces [] t)))"
  have ne: "splitSpaces [] t \<noteq> []" by (rule splitSpaces_not_Nil)
  then obtain ws w where words: "splitSpaces [] t = ws @ [w]"
    by (cases "splitSpaces [] t" rule: rev_cases) auto
  with h have "m < length (w @ [SP] @ [])" by simp
  then have "lastWordsLoop (rev (splitSpaces [] t)) m [] = []"
    by (simp add: words Let_def)
  moreover have "trim [] = ([]::jsstring)" by (simp add: trim_def)
  ultimately show "getLastWords t m = [SP]" using h by (simp add: getLastWords_words)
qed

lemmas chunker_eval =
  js_def LF_def SP_def isSpace_def isLineTerminator_def isSentenceEnd_def trim_def
  blankLineMatch_def sentenceGroup_def sliceLast_def getLastWords_def Let_def

theorem getLastWords_trailing_words_counterexample:
  "getLastWords (js ''abcdefghij'') 3 = [SP]
   \<and> \<not> suffix [SP] (js ''abcdefghij'')
   \<and> SP \<notin> set (js ''abcdefghij'')"
  by (simp add: chunker_eval suffix_def)

theorem getLastWords_trailing_words_witness:
  "length (getLastWords (js ''one two. three four'') 12) \<le> 12
   \<and> sentenceMatch (sliceLast 12 (js ''one two. three four'')) = Some (js ''three four'')
   \<and> getLastWords (js ''one two. three four'') 12 = js ''three four ''
   \<and> getLastWords (js ''ab'') 5 = js ''ab''
   \<and> sentenceMatch (sliceLast 8 (js ''one two three'')) = None
   \<and> (\<exists>ws. suffix ws (splitSpaces [] (js ''one two three''))
         \<and> getLastWords (js ''one two three'') 8 = trim (concat (map (\<lambda>w. w @ [SP]) ws)) @ [SP])
   \<and> sentenceMatch (sliceLast 3 (js ''abcdefghij'')) = None
   \<and> getLastWords (js ''abcdefghij'') 3 = [SP]"
proof -
  note thm1 = getLastWords_trailing_words [of 12 "js ''one two. three four''"]
  note thm2 = getLastWords_trailing_words [of 5 "js ''ab''"]
  note thm3 = getLastWords_trailing_words [of 8 "js ''one two three''"]
  note thm4 = getLastWords_trailing_words [of 3 "js ''abcdefghij''"]
  have m1: "sentenceMatch (sliceLast 12 (js ''one two. three four'')) = Some (js ''three four'')"
    by (simp add: chunker_eval)
  have l1: "12 < length (js ''one two. three four'')" by (simp add: js_def)
  from thm1 have a: "length (getLastWords (js ''one two. three four'') 12) \<le> 12" by simp
  from thm1 m1 l1 have b: "getLastWords (js ''one two. three four'') 12 = js ''three four'' @ [SP]"
    by blast
  have b': "js ''three four'' @ [SP] = js ''three four ''" by (simp add: js_def SP_def)
  from thm2 have c: "getLastWords (js ''ab'') 5 = js ''ab''" by (simp add: js_def)
  have m3: "sentenceMatch (sliceLast 8 (js ''one two three'')) = None"
    by (simp add: chunker_eval)
  have l3: "8 < length (js ''one two three'')" by (simp add: js_def)
  from thm3 m3 l3
  have d: "\<exists>ws. suffix ws (splitSpaces [] (js ''one two three''))
         \<and> getLastWords (js ''one two three'') 8 = trim (concat (map (\<lambda>w. w @ [SP]) ws)) @ [SP]"
    by blast
  have m4: "sentenceMatch (sliceLast 3 (js ''abcdefghij'')) = None"
    by (simp add: chunker_eval)
  have l4: "3 < length (js ''abcdefghij'')" "3 < Suc (length (last (splitSpaces [] (js ''abcdefghij''))))"
    by (simp_all add: chunker_eval)
  from thm4 m4 l4 have e: "getLastWords (js ''abcdefghij'') 3 = [SP]" by blast
  from a m1 b b' c m3 d m4 e show ?thesis by simp
qed


section \<open>Properties of the paragraph loop\<close>

lemma trim_Nil_iff: "trim s = [] \<longleftrightarrow> (\<forall>c\<in>set s. isSpace c)"
proof
  assume "trim s = []"
  then have "\<forall>c\<in>set (rev (dropWhile isSpace s)). isSpace c"
    by (simp add: trim_def)
  then have d: "\<forall>c\<in>set (dropWhile isSpace s). isSpace c" by simp
  have "dropWhile isSpace s = []"
  proof (rule ccontr)
    assume ne: "dropWhile isSpace s \<noteq> []"
    then have "\<not> isSpace (hd (dropWhile isSpace s))" by (rule hd_dropWhile)
    with ne d show False by (cases "dropWhile isSpace s") auto
  qed
  then show "\<forall>c\<in>set s. isSpace c" by (simp only: dropWhile_eq_Nil_conv)
next
  assume "\<forall>c\<in>set s. isSpace c"
  then have dw: "dropWhile isSpace s = []" by simp
  show "trim s = []" unfolding trim_def dw by simp
qed

lemma trimEnd_prefix_hd:
  assumes "trimEnd x \<noteq> []"
  shows "hd (trimEnd x) = hd x"
proof -
  from trimEnd_decompose [of x] obtain sp where "x = trimEnd x @ sp" by blast
  with assms show ?thesis by (metis hd_append2)
qed

lemma trim_isTrimmed:
  assumes "trim s \<noteq> []"
  shows "isTrimmed (trim s)"
proof -
  let ?x = "dropWhile isSpace s"
  from assms have te: "trimEnd ?x \<noteq> []" by (simp add: trim_eq)
  have x: "?x \<noteq> []"
  proof
    assume "?x = []"
    then have "trimEnd ?x = []" by (simp only: trimEnd_def rev.simps dropWhile.simps)
    with te show False by simp
  qed
  then have "\<not> isSpace (hd ?x)" by (rule hd_dropWhile)
  with te have h: "\<not> isSpace (hd (trim s))" by (simp add: trim_eq trimEnd_prefix_hd)
  from te have ne: "dropWhile isSpace (rev ?x) \<noteq> []" by (simp add: trimEnd_def)
  then have "\<not> isSpace (hd (dropWhile isSpace (rev ?x)))" by (rule hd_dropWhile)
  with ne have "\<not> isSpace (last (trim s))"
    by (simp add: trim_eq trimEnd_def last_rev)
  with assms h show ?thesis by (simp add: isTrimmed_def)
qed

lemma paragraphs_trimmed: "\<forall>p\<in>set (paragraphsOf text). isTrimmed p"
  by (auto simp: paragraphsOf_def intro: trim_isTrimmed)

lemma trim_contains_word:
  assumes "c \<in> set s" and "\<not> isSpace c"
  shows "trim s \<noteq> []"
  using assms trim_Nil_iff [of s] by blast

text \<open>The loop pushes the trimmed concatenation of each emission.\<close>

lemma paragraphLoop_emissions:
  "paragraphLoop S ov ps (acc, cur, prev)
   = acc @ map (\<lambda>(p, b). trim (p @ b)) (paragraphEmissions S ov ps (cur, prev))"
proof (induction ps arbitrary: acc cur prev)
  case Nil
  then show ?case by simp
next
  case (Cons p ps)
  show ?case by (simp add: Let_def Cons.IH)
qed

lemma linked_emissions: "linked ov prev (paragraphEmissions S ov ps (cur, prev))"
proof (induction ps arbitrary: cur prev)
  case Nil
  then show ?case by simp
next
  case (Cons p ps)
  show ?case
  proof (cases ps)
    case Nil
    then show ?thesis by simp
  next
    case (Cons q qs)
    then have ne: "ps \<noteq> []" by simp
    show ?thesis
      using Cons.IH [of "getLastWords cur ov" "p @ [LF, LF]"] Cons.IH [of prev "cur @ p @ [LF, LF]"] ne
      by simp
  qed
qed

lemma linked_nth:
  "linked ov ctx em \<Longrightarrow> Suc k < length em \<Longrightarrow> fst (em ! Suc k) = getLastWords (snd (em ! k)) ov"
proof (induction em arbitrary: ctx k)
  case Nil
  then show ?case by simp
next
  case (Cons e em)
  obtain p b where e: "e = (p, b)" by (cases e)
  with Cons.prems have l: "linked ov (getLastWords b ov) em" by simp
  show ?case
  proof (cases k)
    case 0
    with Cons.prems obtain p' b' em' where em: "em = (p', b') # em'" by (cases em) auto
    with l 0 e show ?thesis by simp
  next
    case (Suc j)
    with Cons.prems have "Suc j < length em" by simp
    from Cons.IH [OF l this] Suc show ?thesis by simp
  qed
qed

lemma isBuffer_append:
  assumes "cur = [] \<or> isBuffer cur" and "isTrimmed p"
  shows "isBuffer (cur @ p @ [LF, LF])"
proof -
  have "suffix [LF, LF] (cur @ p @ [LF, LF])" by (simp add: suffix_def)
  moreover have "\<not> isSpace (hd (cur @ p @ [LF, LF]))"
    using assms by (auto simp: isBuffer_def isTrimmed_def)
  ultimately show ?thesis by (simp add: isBuffer_def)
qed

lemma isBuffer_has_word: "isBuffer b \<Longrightarrow> \<exists>c\<in>set b. \<not> isSpace c"
  by (cases b) (auto simp: isBuffer_def)

lemma emissions_are_buffers:
  assumes "\<forall>p\<in>set ps. isTrimmed p" and "cur = [] \<or> isBuffer cur"
  shows "\<forall>e\<in>set (paragraphEmissions S ov ps (cur, prev)). isBuffer (snd e)"
  using assms
proof (induction ps arbitrary: cur prev)
  case Nil
  then show ?case by simp
next
  case (Cons p ps)
  then have p: "isTrimmed p" and rest: "\<forall>p\<in>set ps. isTrimmed p" by simp_all
  have b1: "isBuffer (p @ [LF, LF])" using isBuffer_append [of "[]" p] p by simp
  have b2: "isBuffer (cur @ p @ [LF, LF])" using isBuffer_append [OF Cons.prems(2) p] .
  show ?case
  proof (cases "length (cur @ p) > S \<and> length cur > 0")
    case True
    then have "isBuffer cur" using Cons.prems(2) by auto
    with True b1 Cons.IH [OF rest, of "p @ [LF, LF]" "getLastWords cur ov"] show ?thesis
      by auto
  next
    case False
    with b2 Cons.IH [OF rest, of "cur @ p @ [LF, LF]" prev] show ?thesis
      by auto
  qed
qed

lemma emissions_not_Nil:
  assumes "ps \<noteq> []" and "\<forall>p\<in>set ps. isTrimmed p" and "cur = [] \<or> isBuffer cur"
  shows "paragraphEmissions S ov ps (cur, prev) \<noteq> []"
  using assms
proof (induction ps arbitrary: cur prev)
  case Nil
  then show ?case by simp
next
  case (Cons p ps)
  then have p: "isTrimmed p" and rest: "\<forall>p\<in>set ps. isTrimmed p" by simp_all
  show ?case
  proof (cases "length (cur @ p) > S \<and> length cur > 0")
    case True
    then show ?thesis by simp
  next
    case False
    note buffer = isBuffer_append [OF Cons.prems(3) p]
    show ?thesis
    proof (cases "ps = []")
      case True
      from isBuffer_has_word [OF buffer]
      have "trim (cur @ p @ [LF, LF]) \<noteq> []" using trim_contains_word by blast
      with False True show ?thesis by simp
    next
      case ne: False
      from Cons.IH [OF ne rest disjI2 [OF buffer], of prev] False ne show ?thesis by simp
    qed
  qed
qed


lemma takeWhile_stops_before: "x \<in> set xs \<Longrightarrow> length (takeWhile (\<lambda>y. y \<noteq> x) xs) < length xs"
  by (induction xs) auto

lemma blankLineMatch_Some:
  assumes "blankLineMatch s = Some n"
  shows "2 \<le> n \<and> n \<le> length s \<and> (\<forall>c\<in>set (take n s). isSpace c)"
proof -
  from assms obtain c cs where s: "s = c # cs" and c: "c = LF"
    by (cases s) (auto simp: blankLineMatch_def split: if_splits)
  define ws where "ws = takeWhile isSpace cs"
  define k where "k = length (takeWhile (\<lambda>x. x \<noteq> LF) (rev ws))"
  from assms s c have mem: "LF \<in> set ws" and n: "n = Suc (length ws - k)"
    by (auto simp: blankLineMatch_def Let_def ws_def k_def split: if_splits)
  have "k < length ws"
  proof -
    from mem have "LF \<in> set (rev ws)" by simp
    then have "length (takeWhile (\<lambda>x. x \<noteq> LF) (rev ws)) < length (rev ws)"
      by (rule takeWhile_stops_before)
    then show ?thesis by (simp add: k_def)
  qed
  then have j: "1 \<le> length ws - k" "length ws - k \<le> length ws" by simp_all
  have wl: "length ws \<le> length cs" by (simp add: ws_def length_takeWhile_le)
  have spaces: "\<forall>x\<in>set ws. isSpace x" by (auto simp: ws_def dest: set_takeWhileD)
  have "cs = ws @ dropWhile isSpace cs" by (simp add: ws_def)
  then have "take (length ws - k) cs = take (length ws - k) ws"
    using j(2) by (metis append_Nil2 diff_is_0_eq take_0 take_append)
  then have "\<forall>x\<in>set (take (length ws - k) cs). isSpace x"
    using spaces by (auto dest: in_set_takeD)
  with s c n j wl show ?thesis by (simp add: isSpace_LF)
qed

text \<open>Every character of the text is in a piece or in a separator, which is white space.\<close>

lemma splitBlankLines_all_space:
  "\<forall>p\<in>set (splitBlankLines acc s). \<forall>c\<in>set p. isSpace c \<Longrightarrow> \<forall>c\<in>set (acc @ s). isSpace c"
proof (induction s arbitrary: acc rule: length_induct)
  case (1 s)
  show ?case
  proof (cases s)
    case Nil
    with 1(2) show ?thesis by simp
  next
    case (Cons c cs)
    show ?thesis
    proof (cases "blankLineMatch (c # cs)")
      case None
      with 1(2) Cons have "\<forall>p\<in>set (splitBlankLines (acc @ [c]) cs). \<forall>c\<in>set p. isSpace c"
        by simp
      moreover have "length cs < length s" using Cons by simp
      ultimately have "\<forall>x\<in>set ((acc @ [c]) @ cs). isSpace x" using 1(1) by blast
      with Cons show ?thesis by simp
    next
      case (Some n)
      from blankLineMatch_Some [OF Some]
      have n: "2 \<le> n" and sp: "\<forall>x\<in>set (take n (c # cs)). isSpace x" by simp_all
      from 1(2) Cons Some have a: "\<forall>x\<in>set acc. isSpace x"
        and r: "\<forall>p\<in>set (splitBlankLines [] (drop n (c # cs))). \<forall>c\<in>set p. isSpace c"
        by simp_all
      have "length (drop n (c # cs)) < length s" using Cons n by simp
      with r 1(1) have "\<forall>x\<in>set ([] @ drop n (c # cs)). isSpace x" by blast
      then have d: "\<forall>x\<in>set (drop n (c # cs)). isSpace x" by simp
      have "set (c # cs) = set (take n (c # cs)) \<union> set (drop n (c # cs))"
        by (metis append_take_drop_id set_append)
      with sp d a Cons show ?thesis by auto
    qed
  qed
qed

lemma no_paragraph_all_space:
  assumes "paragraphsOf text = []"
  shows "\<forall>c\<in>set text. isSpace c"
proof -
  from assms have "\<forall>p\<in>set (splitBlankLines [] text). trim p = []"
    by (auto simp: paragraphsOf_def filter_empty_conv)
  then have "\<forall>p\<in>set (splitBlankLines [] text). \<forall>c\<in>set p. isSpace c"
    by (simp add: trim_Nil_iff)
  from splitBlankLines_all_space [OF this] show ?thesis by simp
qed

lemma space_is_no_sentence_end: "isSpace c \<Longrightarrow> \<not> isSentenceEnd c"
  by (auto simp: isSpace_def isSentenceEnd_def)

lemma matchSentences_none:
  assumes "\<forall>c\<in>set s. \<not> isSentenceEnd c"
  shows "matchSentences s = []"
proof (cases s)
  case Nil
  then show ?thesis by simp
next
  case (Cons c cs)
  with assms have "dropWhile (\<lambda>x. \<not> isSentenceEnd x) cs = []" by simp
  with Cons assms show ?thesis by (simp add: Let_def del: dropWhile_eq_Nil_conv)
qed

lemma sentenceBasedChunking_all_space:
  assumes "\<forall>c\<in>set text. isSpace c"
  shows "sentenceBasedChunking text S ov = []"
proof -
  from assms have "matchSentences text = []"
    by (intro matchSentences_none) (auto dest: space_is_no_sentence_end)
  moreover from assms have "trim text = []" by (simp add: trim_Nil_iff)
  moreover have "trim [SP] = []" by (simp add: trim_Nil_iff isSpace_SP)
  ultimately show ?thesis by (simp add: sentenceBasedChunking_def Let_def)
qed

text \<open>The chunks of the fallback chunker are the trimmed emissions of the paragraph loop.\<close>

lemma semanticChunkingWith_emissions:
  "semanticChunkingWith text S ov
   = map (\<lambda>(p, b). trim (p @ b)) (paragraphEmissions S ov (paragraphsOf text) ([], []))"
proof (cases "paragraphsOf text = []")
  case True
  from no_paragraph_all_space [OF True]
  have "sentenceBasedChunking text S ov = []" by (rule sentenceBasedChunking_all_space)
  with True show ?thesis
    by (simp add: semanticChunkingWith_def Let_def)
next
  case False
  from emissions_not_Nil [OF False paragraphs_trimmed, of "[]" S ov "[]"]
  have "paragraphEmissions S ov (paragraphsOf text) ([], []) \<noteq> []" by simp
  then show ?thesis
    by (simp add: semanticChunkingWith_def Let_def paragraphLoop_emissions)
qed

lemma trim_context_buffer:
  assumes "isBuffer b"
  shows "trim (p @ b) = dropWhile isSpace p @ trimEnd b"
proof -
  from assms obtain c cs where b: "b = c # cs" and c: "\<not> isSpace c"
    by (cases b) (auto simp: isBuffer_def)
  have front: "dropWhile isSpace (p @ b) = dropWhile isSpace p @ b"
    using b c by (induction p) simp_all
  have "c \<in> set (rev b)" using b by simp
  then have "dropWhile isSpace (rev b @ rev (dropWhile isSpace p))
             = dropWhile isSpace (rev b) @ rev (dropWhile isSpace p)"
    using c by (rule dropWhile_append1)
  then have "trimEnd (dropWhile isSpace p @ b) = dropWhile isSpace p @ trimEnd b"
    by (simp add: trimEnd_def)
  with front show ?thesis by (simp add: trim_eq)
qed

lemma buffer_ends_with_line_terminator:
  assumes "isBuffer b"
  shows "b \<noteq> [] \<and> isLineTerminator (last b)"
proof -
  from assms obtain x where "b = x @ [LF, LF]" by (auto simp: isBuffer_def suffix_def)
  then show ?thesis by (simp add: lineTerminator_LF)
qed

lemma getLastWords_buffer_zero:
  assumes "isBuffer b"
  shows "getLastWords b 0 = [SP]"
proof -
  from buffer_ends_with_line_terminator [OF assms]
  have ne: "b \<noteq> []" and "sentenceMatch b = None"
    by (simp_all add: sentenceMatch_ends_with_line_terminator)
  then have none: "sentenceMatch (sliceLast 0 b) = None" by (simp add: sliceLast_def)
  obtain ws w where words: "splitSpaces [] b = ws @ [w]"
    using splitSpaces_not_Nil [of "[]" b] by (cases "splitSpaces [] b" rule: rev_cases) auto
  have "lastWordsLoop (rev (splitSpaces [] b)) 0 [] = []"
    by (simp add: words Let_def)
  moreover have "trim [] = ([]::jsstring)" by (simp add: trim_def)
  ultimately show ?thesis using ne none by (simp add: getLastWords_words)
qed

lemma fragment_length:
  assumes "isBuffer b"
  shows "length (dropWhile isSpace (getLastWords b ov)) \<le> ov"
proof (cases "ov = 0")
  case True
  with getLastWords_buffer_zero [OF assms] show ?thesis by (simp add: isSpace_SP)
next
  case False
  then have "length (getLastWords b ov) \<le> ov" by (simp add: getLastWords_length)
  with length_dropWhile_le [of isSpace "getLastWords b ov"] show ?thesis by simp
qed

lemma sliceLast_buffer:
  assumes "isBuffer b"
  shows "sentenceMatch (sliceLast m b) = None"
proof -
  from buffer_ends_with_line_terminator [OF assms]
  have ne: "b \<noteq> []" and lt: "isLineTerminator (last b)" by simp_all
  show ?thesis
  proof (cases "m = 0")
    case True
    with ne lt show ?thesis
      by (simp add: sliceLast_def sentenceMatch_ends_with_line_terminator)
  next
    case False
    from ne have "0 < length b" by simp
    with False have "length b - m < length b" by arith
    then have d: "drop (length b - m) b \<noteq> []" by simp
    then have "last (drop (length b - m) b) = last b" by (simp add: last_drop)
    with d lt False show ?thesis
      by (simp add: sliceLast_def sentenceMatch_ends_with_line_terminator)
  qed
qed

text \<open>
  What \<open>getLastWords\<close> returns for a buffer: the buffer itself when it fits, and otherwise
  trailing whole words of the buffer, each followed by one space.
\<close>

lemma getLastWords_buffer:
  assumes "isBuffer b"
  shows "(length b \<le> m \<longrightarrow> getLastWords b m = b)
       \<and> (m < length b \<longrightarrow>
            (\<exists>ws. suffix ws (splitSpaces [] b)
               \<and> getLastWords b m = trim (concat (map (\<lambda>w. w @ [SP]) ws)) @ [SP]))"
proof (intro conjI impI)
  assume "length b \<le> m"
  then show "getLastWords b m = b" by (rule getLastWords_fits)
next
  assume long: "m < length b"
  from lastWords_of_text [of b m] obtain ws where "suffix ws (splitSpaces [] b)"
    and "lastWordsLoop (rev (splitSpaces [] b)) m [] = concat (map (\<lambda>w. w @ [SP]) ws)"
    by blast
  with getLastWords_words [OF long sliceLast_buffer [OF assms]]
  show "\<exists>ws. suffix ws (splitSpaces [] b)
          \<and> getLastWords b m = trim (concat (map (\<lambda>w. w @ [SP]) ws)) @ [SP]"
    by auto
qed

text \<open>
  C7, as the code has it. The chunks of the fallback chunker are the pushes of its paragraph
  loop, each the trimmed concatenation of a context and a buffer. The overlap size is
  \<open>Math.floor(S * r)\<close> with the product of the two doubles, that is the floor of the double
  nearest to the exact product. For every chunk after the first, the context is what
  \<open>getLastWords\<close> returns for the buffer of the chunk before it (the buffer alone, without
  that chunk's own context) and the overlap size: the whole previous buffer when it is no
  longer than the overlap size, and otherwise trailing whole words of it, each followed by
  one space. The chunk is this context without leading white space, followed by its own
  buffer without the trailing blank line; the fragment is no longer than the overlap size;
  and its words are the last words of the previous buffer, in order.
\<close>

theorem overlap_fragment_from_previous_buffer:
  "semanticChunking text S r
     = map (\<lambda>(p, b). trim (p @ b))
         (paragraphEmissions S (nat \<lfloor>roundDouble (of_nat S * r)\<rfloor>) (paragraphsOf text) ([], []))
   \<and> (\<forall>k. Suc k < length (semanticChunking text S r) \<longrightarrow>
        (\<exists>ctx buf prevCtx prevBuf frag.
            paragraphEmissions S (nat \<lfloor>roundDouble (of_nat S * r)\<rfloor>) (paragraphsOf text) ([], []) ! k
              = (prevCtx, prevBuf)
          \<and> paragraphEmissions S (nat \<lfloor>roundDouble (of_nat S * r)\<rfloor>) (paragraphsOf text) ([], []) ! Suc k
              = (ctx, buf)
          \<and> semanticChunking text S r ! k = trim (prevCtx @ prevBuf)
          \<and> ctx = getLastWords prevBuf (nat \<lfloor>roundDouble (of_nat S * r)\<rfloor>)
          \<and> (length prevBuf \<le> nat \<lfloor>roundDouble (of_nat S * r)\<rfloor> \<longrightarrow> ctx = prevBuf)
          \<and> (nat \<lfloor>roundDouble (of_nat S * r)\<rfloor> < length prevBuf \<longrightarrow>
               (\<exists>ws. suffix ws (splitSpaces [] prevBuf)
                  \<and> ctx = trim (concat (map (\<lambda>w. w @ [SP]) ws)) @ [SP]))
          \<and> frag = dropWhile isSpace ctx
          \<and> semanticChunking text S r ! Suc k = frag @ trimEnd buf
          \<and> length frag \<le> nat \<lfloor>roundDouble (of_nat S * r)\<rfloor>
          \<and> suffix (wordsOf frag) (wordsOf prevBuf)))"
proof (intro conjI allI impI)
  define ov where "ov = nat \<lfloor>roundDouble (of_nat S * r)\<rfloor>"
  have ovs: "overlapSizeOf S r = ov" by (simp add: overlapSizeOf_def doubleProduct_def ov_def)
  let ?em = "paragraphEmissions S ov (paragraphsOf text) ([], [])"
  have eq: "semanticChunking text S r = map (\<lambda>(p, b). trim (p @ b)) ?em"
    by (simp add: semanticChunking_def semanticChunkingWith_emissions ovs)
  then show "semanticChunking text S r
     = map (\<lambda>(p, b). trim (p @ b))
         (paragraphEmissions S (nat \<lfloor>roundDouble (of_nat S * r)\<rfloor>) (paragraphsOf text) ([], []))"
    by (simp add: ov_def)
  fix k
  assume "Suc k < length (semanticChunking text S r)"
  with eq have k: "Suc k < length ?em" by simp
  obtain prevCtx prevBuf where ek: "?em ! k = (prevCtx, prevBuf)" by (cases "?em ! k")
  obtain ctx buf where es: "?em ! Suc k = (ctx, buf)" by (cases "?em ! Suc k")
  have buffers: "\<forall>e\<in>set ?em. isBuffer (snd e)"
    by (rule emissions_are_buffers [OF paragraphs_trimmed]) simp
  from k have "?em ! k \<in> set ?em" "?em ! Suc k \<in> set ?em" by simp_all
  with buffers ek es have pb: "isBuffer prevBuf" and b: "isBuffer buf" by auto
  from linked_nth [OF linked_emissions k] ek es
  have ctx: "ctx = getLastWords prevBuf ov" by simp
  from eq k ek have ck: "semanticChunking text S r ! k = trim (prevCtx @ prevBuf)" by simp
  from eq k es have "semanticChunking text S r ! Suc k = trim (ctx @ buf)" by simp
  with trim_context_buffer [OF b]
  have cs: "semanticChunking text S r ! Suc k = dropWhile isSpace ctx @ trimEnd buf" by simp
  have len: "length (dropWhile isSpace ctx) \<le> ov"
    unfolding ctx by (rule fragment_length [OF pb])
  have words: "suffix (wordsOf (dropWhile isSpace ctx)) (wordsOf prevBuf)"
    unfolding ctx by (simp add: wordsOf_dropWhile_space getLastWords_wordsOf)
  from getLastWords_buffer [OF pb, of ov]
  have fits: "length prevBuf \<le> ov \<longrightarrow> ctx = prevBuf"
    and cut: "ov < length prevBuf \<longrightarrow>
               (\<exists>ws. suffix ws (splitSpaces [] prevBuf)
                  \<and> ctx = trim (concat (map (\<lambda>w. w @ [SP]) ws)) @ [SP])"
    unfolding ctx by simp_all
  from ek es ck ctx fits cut cs len words
  have "\<exists>ctx buf prevCtx prevBuf frag.
            ?em ! k = (prevCtx, prevBuf)
          \<and> ?em ! Suc k = (ctx, buf)
          \<and> semanticChunking text S r ! k = trim (prevCtx @ prevBuf)
          \<and> ctx = getLastWords prevBuf ov
          \<and> (length prevBuf \<le> ov \<longrightarrow> ctx = prevBuf)
          \<and> (ov < length prevBuf \<longrightarrow>
               (\<exists>ws. suffix ws (splitSpaces [] prevBuf)
                  \<and> ctx = trim (concat (map (\<lambda>w. w @ [SP]) ws)) @ [SP]))
          \<and> frag = dropWhile isSpace ctx
          \<and> semanticChunking text S r ! Suc k = frag @ trimEnd buf
          \<and> length frag \<le> ov
          \<and> suffix (wordsOf frag) (wordsOf prevBuf)"
    by blast
  then show "\<exists>ctx buf prevCtx prevBuf frag.
            paragraphEmissions S (nat \<lfloor>roundDouble (of_nat S * r)\<rfloor>) (paragraphsOf text) ([], []) ! k
              = (prevCtx, prevBuf)
          \<and> paragraphEmissions S (nat \<lfloor>roundDouble (of_nat S * r)\<rfloor>) (paragraphsOf text) ([], []) ! Suc k
              = (ctx, buf)
          \<and> semanticChunking text S r ! k = trim (prevCtx @ prevBuf)
          \<and> ctx = getLastWords prevBuf (nat \<lfloor>roundDouble (of_nat S * r)\<rfloor>)
          \<and> (length prevBuf \<le> nat \<lfloor>roundDouble (of_nat S * r)\<rfloor> \<longrightarrow> ctx = prevBuf)
          \<and> (nat \<lfloor>roundDouble (of_nat S * r)\<rfloor> < length prevBuf \<longrightarrow>
               (\<exists>ws. suffix ws (splitSpaces [] prevBuf)
                  \<and> ctx = trim (concat (map (\<lambda>w. w @ [SP]) ws)) @ [SP]))
          \<and> frag = dropWhile isSpace ctx
          \<and> semanticChunking text S r ! Suc k = frag @ trimEnd buf
          \<and> length frag \<le> nat \<lfloor>roundDouble (of_nat S * r)\<rfloor>
          \<and> suffix (wordsOf frag) (wordsOf prevBuf)"
    unfolding ov_def .
qed


lemma floor_rat_numeral: "\<lfloor>(numeral a :: rat) / numeral b\<rfloor> = numeral a div numeral b"
  using floor_divide_of_int_eq [of "numeral a" "numeral b", where ?'a = rat] by simp

lemma ceiling_rat_numeral: "\<lceil>(numeral a :: rat) / numeral b\<rceil> = - (- numeral a div numeral b)"
  using floor_divide_of_int_eq [of "- numeral a" "numeral b", where ?'a = rat]
  by (simp add: ceiling_def)

lemmas double_eval = roundDouble_def roundPositive_def roundTiesToEven_def pow2_def
  floorLog2_def bitLength.simps Let_def floor_rat_numeral ceiling_rat_numeral

lemma overlapSizeOf_default: "overlapSizeOf 1000 zeroPointOne = 100"
  by (simp add: overlapSizeOf_def doubleProduct_def double_eval zeroPointOne_def)

lemmas semantic_eval = chunker_eval semanticChunking_def semanticChunkingWith_def
  overlapSizeOf_def doubleProduct_def double_eval paragraphsOf_def sentenceBasedChunking_def

theorem overlap_fragment_from_previous_buffer_counterexample:
  "semanticChunking (js ''aa'' @ [LF, LF] @ js ''bb'' @ [LF, LF] @ js ''cccccccc'') 10 (3 / 4)
     = [js ''aa'' @ [LF, LF] @ js ''bb'', js ''aa bb cccccccc'']
   \<and> paragraphEmissions 10 7
        (paragraphsOf (js ''aa'' @ [LF, LF] @ js ''bb'' @ [LF, LF] @ js ''cccccccc'')) ([], [])
     = [([], js ''aa'' @ [LF, LF] @ js ''bb'' @ [LF, LF]),
        (js ''aa bb '', js ''cccccccc'' @ [LF, LF])]
   \<and> nat \<lfloor>roundDouble (of_nat 10 * (3 / 4))\<rfloor> = 7
   \<and> SP \<in> set (js ''aa bb '')
   \<and> SP \<notin> set (js ''aa'' @ [LF, LF] @ js ''bb'' @ [LF, LF])
   \<and> semanticChunking (js ''abcdefgh'' @ [LF, LF] @ js ''ABCDEFGHIJKLMNOPQRSTU'') 30 oneThird
     = [js ''abcdefgh'', js ''abcdefgh'' @ [LF, LF] @ js ''ABCDEFGHIJKLMNOPQRSTU'']
   \<and> paragraphEmissions 30 10
        (paragraphsOf (js ''abcdefgh'' @ [LF, LF] @ js ''ABCDEFGHIJKLMNOPQRSTU'')) ([], [])
     = [([], js ''abcdefgh'' @ [LF, LF]),
        (js ''abcdefgh'' @ [LF, LF], js ''ABCDEFGHIJKLMNOPQRSTU'' @ [LF, LF])]
   \<and> length (js ''abcdefgh'' @ [LF, LF]) = 10
   \<and> of_nat 30 * oneThird < (10 :: rat)
   \<and> \<lfloor>of_nat 30 * oneThird\<rfloor> = 9
   \<and> nat \<lfloor>roundDouble (of_nat 30 * oneThird)\<rfloor> = 10"
  by (simp add: semantic_eval oneThird_def)

theorem overlap_fragment_from_previous_buffer_witness:
  "semanticChunking (js ''hello big world'' @ [LF, LF] @ js ''second para here'') 20 (1 / 2)
     = [js ''hello big world'', js ''world second para here'']
   \<and> nat \<lfloor>roundDouble (of_nat 20 * (1 / 2))\<rfloor> = 10
   \<and> (\<exists>ctx buf prevCtx prevBuf frag.
          paragraphEmissions 20 10
            (paragraphsOf (js ''hello big world'' @ [LF, LF] @ js ''second para here'')) ([], []) ! 0
            = (prevCtx, prevBuf)
        \<and> paragraphEmissions 20 10
            (paragraphsOf (js ''hello big world'' @ [LF, LF] @ js ''second para here'')) ([], []) ! Suc 0
            = (ctx, buf)
        \<and> prevBuf = js ''hello big world'' @ [LF, LF]
        \<and> ctx = js ''world ''
        \<and> semanticChunking (js ''hello big world'' @ [LF, LF] @ js ''second para here'') 20 (1 / 2) ! 0
            = trim (prevCtx @ prevBuf)
        \<and> ctx = getLastWords prevBuf 10
        \<and> (\<exists>ws. suffix ws (splitSpaces [] prevBuf)
               \<and> ctx = trim (concat (map (\<lambda>w. w @ [SP]) ws)) @ [SP])
        \<and> frag = dropWhile isSpace ctx
        \<and> semanticChunking (js ''hello big world'' @ [LF, LF] @ js ''second para here'') 20 (1 / 2) ! Suc 0
            = frag @ trimEnd buf
        \<and> length frag \<le> 10
        \<and> suffix (wordsOf frag) (wordsOf prevBuf))"
proof -
  let ?t = "js ''hello big world'' @ [LF, LF] @ js ''second para here''"
  have chunks: "semanticChunking ?t 20 (1 / 2)
     = [js ''hello big world'', js ''world second para here'']"
    by (simp add: semantic_eval)
  then have len: "Suc 0 < length (semanticChunking ?t 20 (1 / 2))"
    by simp
  have ov: "nat \<lfloor>roundDouble (of_nat 20 * (1 / 2))\<rfloor> = 10" by (simp add: double_eval)
  have em: "paragraphEmissions 20 10 (paragraphsOf ?t) ([], [])
            = [([], js ''hello big world'' @ [LF, LF]),
               (js ''world '', js ''second para here'' @ [LF, LF])]"
    by (simp add: semantic_eval)
  have long: "10 < length (js ''hello big world'' @ [LF, LF])" by (simp add: js_def)
  from overlap_fragment_from_previous_buffer
         [of ?t 20 "1 / 2", THEN conjunct2, rule_format, OF len]
  obtain ctx buf prevCtx prevBuf frag where
      a: "paragraphEmissions 20 10 (paragraphsOf ?t) ([], []) ! 0 = (prevCtx, prevBuf)"
    and b: "paragraphEmissions 20 10 (paragraphsOf ?t) ([], []) ! Suc 0 = (ctx, buf)"
    and c: "semanticChunking ?t 20 (1 / 2) ! 0 = trim (prevCtx @ prevBuf)"
    and d: "ctx = getLastWords prevBuf 10"
    and e: "10 < length prevBuf \<longrightarrow>
               (\<exists>ws. suffix ws (splitSpaces [] prevBuf)
                  \<and> ctx = trim (concat (map (\<lambda>w. w @ [SP]) ws)) @ [SP])"
    and f: "frag = dropWhile isSpace ctx"
    and g: "semanticChunking ?t 20 (1 / 2) ! Suc 0 = frag @ trimEnd buf"
    and h: "length frag \<le> 10"
    and i: "suffix (wordsOf frag) (wordsOf prevBuf)"
    unfolding ov by blast
  from a em have pb: "prevBuf = js ''hello big world'' @ [LF, LF]" by simp
  from b em have cx: "ctx = js ''world ''" by simp
  from e pb long have e': "\<exists>ws. suffix ws (splitSpaces [] prevBuf)
               \<and> ctx = trim (concat (map (\<lambda>w. w @ [SP]) ws)) @ [SP]"
    by simp
  from a b pb cx c d e' f g h i chunks ov show ?thesis by blast
qed


lemma splitBlankLines_not_Nil: "splitBlankLines acc s \<noteq> []"
proof (induction s arbitrary: acc rule: length_induct)
  case (1 s)
  show ?case
  proof (cases s)
    case Nil
    then show ?thesis by simp
  next
    case (Cons c cs)
    show ?thesis
    proof (cases "blankLineMatch (c # cs)")
      case None
      have "length cs < length s" using Cons by simp
      with 1 have "splitBlankLines (acc @ [c]) cs \<noteq> []" by blast
      with Cons None show ?thesis by simp
    next
      case (Some n)
      with Cons show ?thesis by simp
    qed
  qed
qed

lemma splitBlankLines_chars:
  "\<forall>p\<in>set (splitBlankLines acc s). set p \<subseteq> set acc \<union> set s"
proof (induction s arbitrary: acc rule: length_induct)
  case (1 s)
  show ?case
  proof (cases s)
    case Nil
    then show ?thesis by simp
  next
    case (Cons c cs)
    show ?thesis
    proof (cases "blankLineMatch (c # cs)")
      case None
      have "length cs < length s" using Cons by simp
      with 1 have "\<forall>p\<in>set (splitBlankLines (acc @ [c]) cs). set p \<subseteq> set (acc @ [c]) \<union> set cs"
        by blast
      with Cons None show ?thesis by auto
    next
      case (Some n)
      from blankLineMatch_Some [OF Some] have "2 \<le> n" by simp
      then have "length (drop n (c # cs)) < length s" using Cons by simp
      with 1 have "\<forall>p\<in>set (splitBlankLines [] (drop n (c # cs))). set p \<subseteq> set [] \<union> set (drop n (c # cs))"
        by blast
      moreover have "set (drop n (c # cs)) \<subseteq> set (c # cs)" by (rule set_drop_subset)
      ultimately have "\<forall>p\<in>set (splitBlankLines [] (drop n (c # cs))). set p \<subseteq> set (c # cs)"
        by auto
      with Cons Some show ?thesis by auto
    qed
  qed
qed

lemma all_space_no_paragraph:
  assumes "\<forall>c\<in>set text. isSpace c"
  shows "paragraphsOf text = []"
proof -
  from splitBlankLines_chars [of "[]" "text"] assms
  have "\<forall>p\<in>set (splitBlankLines [] text). \<forall>c\<in>set p. isSpace c" by auto
  then have "\<forall>p\<in>set (splitBlankLines [] text). trim p = []" by (simp add: trim_Nil_iff)
  then show ?thesis by (auto simp: paragraphsOf_def filter_empty_conv)
qed

text \<open>
  The length of the joined paragraphs: the lengths of the paragraphs and two characters for
  each separator.
\<close>

lemma length_joinParagraphs:
  "length (joinParagraphs ps) = sum_list (map length ps) + 2 * (length ps - 1)"
  by (induction ps rule: joinParagraphs.induct) simp_all

lemma splitBlankLines_length:
  "sum_list (map length (splitBlankLines acc s)) + 2 * (length (splitBlankLines acc s) - 1)
   \<le> length acc + length s"
proof (induction s arbitrary: acc rule: length_induct)
  case (1 s)
  show ?case
  proof (cases s)
    case Nil
    then show ?thesis by simp
  next
    case (Cons c cs)
    show ?thesis
    proof (cases "blankLineMatch (c # cs)")
      case None
      have "length cs < length s" using Cons by simp
      with 1 have "sum_list (map length (splitBlankLines (acc @ [c]) cs))
                   + 2 * (length (splitBlankLines (acc @ [c]) cs) - 1)
                   \<le> length (acc @ [c]) + length cs"
        by blast
      with Cons None show ?thesis by simp
    next
      case (Some n)
      define r where "r = splitBlankLines [] (drop n (c # cs))"
      from blankLineMatch_Some [OF Some] have n: "2 \<le> n" "n \<le> length (c # cs)" by simp_all
      then have "length (drop n (c # cs)) < length s" using Cons by simp
      with 1 have "sum_list (map length r) + 2 * (length r - 1) \<le> length ([]::jsstring) + length (drop n (c # cs))"
        unfolding r_def by blast
      then have le: "sum_list (map length r) + 2 * (length r - 1) + n \<le> length (c # cs)"
        using n by simp
      have "r \<noteq> []" by (simp add: r_def splitBlankLines_not_Nil)
      then have "0 < length r" by simp
      with le n have "length acc + sum_list (map length r) + 2 * length r \<le> length acc + length (c # cs)"
        by simp
      moreover have "splitBlankLines acc s = acc # r" using Cons Some by (simp add: r_def)
      ultimately show ?thesis using Cons by simp
    qed
  qed
qed

lemma sum_length_filter: "sum_list (map length (filter P xs)) \<le> sum_list (map length xs)"
  by (induction xs) simp_all

lemma sum_length_trim: "sum_list (map length (map trim xs)) \<le> sum_list (map length xs)"
proof (induction xs)
  case Nil
  then show ?case by simp
next
  case (Cons x xs)
  with length_trim_le [of x] show ?case by simp
qed

lemma length_joined_paragraphs: "length (joinParagraphs (paragraphsOf text)) \<le> length text"
proof -
  let ?pieces = "splitBlankLines [] text"
  have a: "sum_list (map length (paragraphsOf text)) \<le> sum_list (map length ?pieces)"
    unfolding paragraphsOf_def
    using sum_length_filter [of "\<lambda>p. 0 < length p" "map trim ?pieces"] sum_length_trim [of ?pieces]
    by simp
  have b: "length (paragraphsOf text) \<le> length ?pieces"
    unfolding paragraphsOf_def
    using length_filter_le [of "\<lambda>p. 0 < length p" "map trim ?pieces"] by simp
  from splitBlankLines_length [of "[]" "text"]
  have "sum_list (map length ?pieces) + 2 * (length ?pieces - 1) \<le> length text" by simp
  with a b show ?thesis by (simp add: length_joinParagraphs)
qed

lemma concat_paragraphs:
  "ps \<noteq> [] \<Longrightarrow> concat (map (\<lambda>p. p @ [LF, LF]) ps) = joinParagraphs ps @ [LF, LF]"
  by (induction ps rule: joinParagraphs.induct) simp_all

lemma joinParagraphs_ends:
  assumes "ps \<noteq> []" and "\<forall>p\<in>set ps. isTrimmed p"
  shows "joinParagraphs ps \<noteq> [] \<and> hd (joinParagraphs ps) = hd (hd ps)
         \<and> last (joinParagraphs ps) = last (last ps)"
  using assms by (induction ps rule: joinParagraphs.induct) (auto simp: isTrimmed_def)

lemma trim_joined_paragraphs:
  assumes "ps \<noteq> []" and "\<forall>p\<in>set ps. isTrimmed p"
  shows "trim (concat (map (\<lambda>p. p @ [LF, LF]) ps)) = joinParagraphs ps"
proof -
  let ?j = "joinParagraphs ps"
  from joinParagraphs_ends [OF assms]
  have ne: "?j \<noteq> []" and h: "hd ?j = hd (hd ps)" and l: "last ?j = last (last ps)" by simp_all
  from assms have "isTrimmed (hd ps)" "isTrimmed (last ps)" by simp_all
  with h l have hs: "\<not> isSpace (hd ?j)" and ls: "\<not> isSpace (last ?j)"
    by (simp_all add: isTrimmed_def)
  from ne hs have front: "dropWhile isSpace (?j @ [LF, LF]) = ?j @ [LF, LF]"
    by (cases ?j) simp_all
  from ne ls have "dropWhile isSpace (rev ?j) = rev ?j"
    by (cases ?j rule: rev_cases) simp_all
  then have "trimEnd (?j @ [LF, LF]) = ?j" by (simp add: trimEnd_def isSpace_LF)
  with front show ?thesis by (simp add: concat_paragraphs [OF assms(1)] trim_eq)
qed

text \<open>
  As long as the buffer with all the paragraphs left fits the chunk size, the loop pushes
  once, after the last paragraph, and the context is the one it started with.
\<close>

lemma emissions_no_split:
  assumes "ps \<noteq> []" and "\<forall>p\<in>set ps. isTrimmed p"
    and "length cur + length (concat (map (\<lambda>p. p @ [LF, LF]) ps)) \<le> S + 2"
  shows "paragraphEmissions S ov ps (cur, prev) = [(prev, cur @ concat (map (\<lambda>p. p @ [LF, LF]) ps))]"
  using assms
proof (induction ps arbitrary: cur)
  case Nil
  then show ?case by simp
next
  case (Cons p rest)
  from Cons.prems(3) have fit: "\<not> (length (cur @ p) > S \<and> length cur > 0)" by simp
  show ?case
  proof (cases "rest = []")
    case True
    from Cons.prems(2) have "hd p \<in> set (cur @ p @ [LF, LF])" "\<not> isSpace (hd p)"
      by (simp_all add: isTrimmed_def)
    then have "trim (cur @ p @ [LF, LF]) \<noteq> []" by (rule trim_contains_word)
    with True fit show ?thesis by simp
  next
    case False
    from Cons.prems have "length (cur @ p @ [LF, LF]) + length (concat (map (\<lambda>p. p @ [LF, LF]) rest)) \<le> S + 2"
      by simp
    with Cons.IH [OF False, of "cur @ p @ [LF, LF]"] Cons.prems(2)
    have "paragraphEmissions S ov rest (cur @ p @ [LF, LF], prev)
          = [(prev, (cur @ p @ [LF, LF]) @ concat (map (\<lambda>p. p @ [LF, LF]) rest))]"
      by simp
    with False fit show ?thesis by simp
  qed
qed

lemma short_text_emissions:
  assumes "length text \<le> S" and "paragraphsOf text \<noteq> []"
  shows "paragraphEmissions S ov (paragraphsOf text) ([], [])
         = [([], concat (map (\<lambda>p. p @ [LF, LF]) (paragraphsOf text)))]"
proof -
  from length_joined_paragraphs [of "text"] assms(1)
  have "length ([]::jsstring) + length (concat (map (\<lambda>p. p @ [LF, LF]) (paragraphsOf text))) \<le> S + 2"
    by (simp add: concat_paragraphs [OF assms(2)])
  from emissions_no_split [OF assms(2) paragraphs_trimmed this] show ?thesis by simp
qed

text \<open>
  C6, as the code has it. A text that is no longer than the target size and has a character
  that is not white space gives exactly one chunk, pushed with an empty overlap context: its
  paragraphs, each trimmed, joined by blank lines. This is the trimmed text when the text has
  no blank-line separator. A text of white space only gives no chunk, and so does the empty
  text.
\<close>

theorem short_text_is_one_chunk:
  "(length text \<le> S \<and> (\<exists>c\<in>set text. \<not> isSpace c) \<longrightarrow>
      semanticChunking text S r = [joinParagraphs (paragraphsOf text)]
      \<and> paragraphEmissions S (overlapSizeOf S r) (paragraphsOf text) ([], [])
          = [([], concat (map (\<lambda>p. p @ [LF, LF]) (paragraphsOf text)))]
      \<and> (splitBlankLines [] text = [text] \<longrightarrow> semanticChunking text S r = [trim text]))
   \<and> ((\<forall>c\<in>set text. isSpace c) \<longrightarrow> semanticChunking text S r = [])
   \<and> semanticChunking [] S r = []"
proof (intro conjI impI)
  assume a: "length text \<le> S \<and> (\<exists>c\<in>set text. \<not> isSpace c)"
  then have ne: "paragraphsOf text \<noteq> []" using no_paragraph_all_space [of "text"] by blast
  from a have "length text \<le> S" by simp
  from short_text_emissions [OF this ne]
  show em: "paragraphEmissions S (overlapSizeOf S r) (paragraphsOf text) ([], [])
            = [([], concat (map (\<lambda>p. p @ [LF, LF]) (paragraphsOf text)))]" .
  then show one: "semanticChunking text S r = [joinParagraphs (paragraphsOf text)]"
    by (simp add: semanticChunking_def semanticChunkingWith_emissions
        trim_joined_paragraphs [OF ne paragraphs_trimmed])
  assume "splitBlankLines [] text = [text]"
  with ne have "paragraphsOf text = [trim text]"
    by (simp add: paragraphsOf_def split: if_splits)
  with one show "semanticChunking text S r = [trim text]" by simp
next
  assume "\<forall>c\<in>set text. isSpace c"
  then have "paragraphsOf text = []" by (rule all_space_no_paragraph)
  then show "semanticChunking text S r = []"
    by (simp add: semanticChunking_def semanticChunkingWith_emissions)
next
  have "paragraphsOf [] = []" by (rule all_space_no_paragraph) simp
  then show "semanticChunking [] S r = []"
    by (simp add: semanticChunking_def semanticChunkingWith_emissions)
qed

theorem short_text_is_one_chunk_counterexample:
  "js ''a'' @ [LF, SP, LF] @ js ''b'' \<noteq> []
   \<and> length (js ''a'' @ [LF, SP, LF] @ js ''b'') < 1000
   \<and> trim (js ''a'' @ [LF, SP, LF] @ js ''b'') = js ''a'' @ [LF, SP, LF] @ js ''b''
   \<and> semanticChunking (js ''a'' @ [LF, SP, LF] @ js ''b'') 1000 (1 / 10) = [js ''a'' @ [LF, LF] @ js ''b'']
   \<and> semanticChunking (js ''a'' @ [LF, SP, LF] @ js ''b'') 1000 (1 / 10)
       \<noteq> [trim (js ''a'' @ [LF, SP, LF] @ js ''b'')]
   \<and> [SP] \<noteq> ([]::jsstring)
   \<and> length [SP] < (1000::nat)
   \<and> semanticChunking [SP] 1000 (1 / 10) = []"
  by (simp add: semantic_eval)

theorem short_text_is_one_chunk_witness:
  "semanticChunking (js '' hello world '') 1000 (1 / 10) = [js ''hello world'']
   \<and> paragraphEmissions 1000 (overlapSizeOf 1000 (1 / 10)) (paragraphsOf (js '' hello world '')) ([], [])
       = [([], js ''hello world'' @ [LF, LF])]
   \<and> semanticChunking (js ''a'' @ [LF, SP, LF] @ js ''b'') 1000 (1 / 10) = [js ''a'' @ [LF, LF] @ js ''b'']
   \<and> semanticChunking [SP, LF, LF, SP] 1000 (1 / 10) = []"
proof -
  note one = short_text_is_one_chunk [of "js '' hello world ''" 1000 "1 / 10", THEN conjunct1]
  note two = short_text_is_one_chunk [of "js ''a'' @ [LF, SP, LF] @ js ''b''" 1000 "1 / 10", THEN conjunct1]
  note none = short_text_is_one_chunk [of "[SP, LF, LF, SP]" 1000 "1 / 10", THEN conjunct2, THEN conjunct1]
  have p1: "paragraphsOf (js '' hello world '') = [js ''hello world'']"
    and s1: "splitBlankLines [] (js '' hello world '') = [js '' hello world '']"
    and t1: "trim (js '' hello world '') = js ''hello world''"
    by (simp_all add: semantic_eval)
  have h1: "length (js '' hello world '') \<le> 1000 \<and> (\<exists>c\<in>set (js '' hello world ''). \<not> isSpace c)"
    by (simp add: js_def isSpace_def)
  have p2: "paragraphsOf (js ''a'' @ [LF, SP, LF] @ js ''b'') = [js ''a'', js ''b'']"
    by (simp add: semantic_eval)
  have h2: "length (js ''a'' @ [LF, SP, LF] @ js ''b'') \<le> 1000
            \<and> (\<exists>c\<in>set (js ''a'' @ [LF, SP, LF] @ js ''b''). \<not> isSpace c)"
    by (simp add: js_def isSpace_def LF_def SP_def)
  have h3: "\<forall>c\<in>set [SP, LF, LF, SP]. isSpace c" by (simp add: isSpace_SP isSpace_LF)
  from one h1 s1 t1 p1 have a: "semanticChunking (js '' hello world '') 1000 (1 / 10) = [js ''hello world'']"
    by simp
  from one h1 p1 have b: "paragraphEmissions 1000 (overlapSizeOf 1000 (1 / 10))
      (paragraphsOf (js '' hello world '')) ([], []) = [([], js ''hello world'' @ [LF, LF])]"
    by simp
  from two h2 p2 have c: "semanticChunking (js ''a'' @ [LF, SP, LF] @ js ''b'') 1000 (1 / 10)
      = [js ''a'' @ [LF, LF] @ js ''b'']"
    by simp
  from none h3 have d: "semanticChunking [SP, LF, LF, SP] 1000 (1 / 10) = []" by simp
  from a b c d show ?thesis by simp
qed


section \<open>JSON.parse after JSON.stringify\<close>

lemma hexValue_hexDigitChar:
  assumes "d < 16"
  shows "hexValue (hexDigitChar d) = Some d"
proof -
  from assms have "d = 0 \<or> d = 1 \<or> d = 2 \<or> d = 3 \<or> d = 4 \<or> d = 5 \<or> d = 6 \<or> d = 7
      \<or> d = 8 \<or> d = 9 \<or> d = 10 \<or> d = 11 \<or> d = 12 \<or> d = 13 \<or> d = 14 \<or> d = 15"
    by arith
  then show ?thesis by (elim disjE) (simp_all add: hexValue_def hexDigitChar_def)
qed

lemma hex_digits_of: "((n div 4096 * 16 + n div 256 mod 16) * 16 + n div 16 mod 16) * 16 + n mod 16 = (n::nat)"
proof -
  have a: "n div 256 = n div 16 div 16" and b: "n div 4096 = n div 16 div 16 div 16"
    by (simp_all add: div_mult2_eq [symmetric])
  show ?thesis unfolding a b by simp
qed

lemma hex4_unicodeEscape:
  "hex4 (hexDigitChar (unat c div 4096)) (hexDigitChar (unat c div 256 mod 16))
        (hexDigitChar (unat c div 16 mod 16)) (hexDigitChar (unat c mod 16)) = Some (c::jschar)"
proof -
  have "unat c < 65536" using unsigned_less [of c] by simp
  then have a: "unat c div 4096 < 16" by simp
  have b: "unat c div 256 mod 16 < 16" "unat c div 16 mod 16 < 16" "unat c mod 16 < 16"
    by simp_all
  note hv = hexValue_hexDigitChar
  have "of_nat (unat c) = c" by simp
  then show ?thesis
    unfolding hex4_def hv [OF a] hv [OF b(1)] hv [OF b(2)] hv [OF b(3)]
    by (simp only: hex_digits_of prod.case option.case)
qed

lemma surrogate_is_plain:
  assumes "isHighSurrogate c \<or> isLowSurrogate c"
  shows "c \<noteq> 0x22 \<and> c \<noteq> 0x5C \<and> \<not> c < 0x20"
  using assms
  by (auto simp: isHighSurrogate_def isLowSurrogate_def word_le_nat_alt word_less_nat_alt)

text \<open>What \<open>quoteUnit\<close> writes for a code unit is read back as that code unit.\<close>

lemma parseChars_quoteUnit:
  "parseChars (quoteUnit c @ r) = map_option (\<lambda>(t, r'). (c # t, r')) (parseChars r)"
proof -
  consider (simple) "c = 0x08 \<or> c = 0x09 \<or> c = 0x0A \<or> c = 0x0C \<or> c = 0x0D \<or> c = 0x22 \<or> c = 0x5C"
    | (escaped) "\<not> (c = 0x08 \<or> c = 0x09 \<or> c = 0x0A \<or> c = 0x0C \<or> c = 0x0D \<or> c = 0x22 \<or> c = 0x5C)"
        "c < 0x20 \<or> isHighSurrogate c \<or> isLowSurrogate c"
    | (plain) "\<not> (c = 0x08 \<or> c = 0x09 \<or> c = 0x0A \<or> c = 0x0C \<or> c = 0x0D \<or> c = 0x22 \<or> c = 0x5C)"
        "\<not> (c < 0x20 \<or> isHighSurrogate c \<or> isLowSurrogate c)"
    by blast
  then show ?thesis
  proof cases
    case simple
    then show ?thesis by (auto simp: quoteUnit_def simpleEscape_def)
  next
    case escaped
    then have "quoteUnit c = unicodeEscape c" by (simp add: quoteUnit_def)
    then show ?thesis by (simp add: unicodeEscape_def hex4_unicodeEscape)
  next
    case plain
    then have "quoteUnit c = [c]" by (simp add: quoteUnit_def)
    with plain show ?thesis by simp
  qed
qed

lemma parseChars_quoteChars: "parseChars (quoteChars s @ 0x22 # rest) = Some (s, rest)"
proof (induction s rule: quoteChars.induct)
  case 1
  show ?case by simp
next
  case (2 c)
  have "parseChars (0x22 # rest) = Some ([], rest)" by simp
  then show ?case unfolding quoteChars.simps parseChars_quoteUnit by simp
next
  case (3 c d cs)
  show ?case
  proof (cases "isHighSurrogate c \<and> isLowSurrogate d")
    case True
    with surrogate_is_plain [of c] surrogate_is_plain [of d] 3(1)
    show ?thesis by simp
  next
    case False
    then have q: "quoteChars (c # d # cs) = quoteUnit c @ quoteChars (d # cs)" by auto
    from False 3(2) have ih: "parseChars (quoteChars (d # cs) @ 0x22 # rest) = Some (d # cs, rest)"
      by blast
    show ?thesis unfolding q append_assoc parseChars_quoteUnit ih by simp
  qed
qed

lemma parseChars_quoteJSONString:
  "parseChars (tl (quoteJSONString s @ rest)) = Some (s, rest)"
  by (simp add: quoteJSONString_def parseChars_quoteChars)


lemma digitChar_digit:
  assumes "d < 10"
  shows "isDigit (digitChar d) \<and> digitValue (digitChar d) = d \<and> (digitChar d = 0x30 \<longleftrightarrow> d = 0)"
proof -
  from assms have "d = 0 \<or> d = 1 \<or> d = 2 \<or> d = 3 \<or> d = 4 \<or> d = 5 \<or> d = 6 \<or> d = 7
      \<or> d = 8 \<or> d = 9"
    by arith
  then show ?thesis by (elim disjE) (simp_all add: isDigit_def digitValue_def digitChar_def)
qed

lemma digitsValue_snoc: "digitsValue (ds @ [d]) = 10 * digitsValue ds + digitValue d"
  by (simp add: digitsValue_def)

text \<open>The decimal digits of a number: digits only, no leading zero, and the number as value.\<close>

lemma numberToString_digits:
  "numberToString n \<noteq> []
   \<and> (\<forall>c\<in>set (numberToString n). isDigit c)
   \<and> digitsValue (numberToString n) = n
   \<and> (hd (numberToString n) = 0x30 \<longleftrightarrow> n = 0)"
proof (induction n rule: numberToString.induct)
  case (1 n)
  show ?case
  proof (cases "n < 10")
    case True
    then have "numberToString n = [digitChar n]" by (simp add: numberToString.simps)
    with digitChar_digit [OF True] show ?thesis by (simp add: digitsValue_def)
  next
    case False
    then have eq: "numberToString n = numberToString (n div 10) @ [digitChar (n mod 10)]"
      by (subst numberToString.simps) simp
    from False 1 have ih: "numberToString (n div 10) \<noteq> []"
      "\<forall>c\<in>set (numberToString (n div 10)). isDigit c"
      "digitsValue (numberToString (n div 10)) = n div 10"
      "hd (numberToString (n div 10)) = 0x30 \<longleftrightarrow> n div 10 = 0"
      by simp_all
    have d: "n mod 10 < 10" by simp
    from False have "n div 10 \<noteq> 0" by simp
    with ih(4) have "hd (numberToString (n div 10)) \<noteq> 0x30" by simp
    with ih(1) have h: "hd (numberToString n) \<noteq> 0x30" by (simp add: eq)
    from False have "n \<noteq> 0" by simp
    with h ih digitChar_digit [OF d] show ?thesis
      by (simp add: eq digitsValue_snoc)
  qed
qed

lemma numberToString_zero: "numberToString 0 = [0x30]"
  by (simp add: numberToString.simps digitChar_def)

lemma digit_facts:
  "isDigit c \<Longrightarrow> c \<noteq> 0x2D \<and> c \<noteq> 0x7B \<and> c \<noteq> 0x5B \<and> c \<noteq> 0x22 \<and> c \<noteq> 0x74 \<and> c \<noteq> 0x66
      \<and> c \<noteq> 0x6E \<and> \<not> isJsonSpace c"
  by (auto simp: isDigit_def isJsonSpace_def)

lemma endsNumber_facts:
  assumes "endsNumber rest"
  shows "takeWhile isDigit rest = []" and "dropWhile isDigit rest = rest"
    and "parseFraction rest = Some (0, rest)" and "parseExponent rest = Some (1, rest)"
  using assms
  by (cases rest; auto simp: endsNumber_def isDigit_def parseFraction_def parseExponent_def)+

lemma parseInt_numberToString:
  assumes "endsNumber rest"
  shows "parseInt (numberToString n @ rest) = Some (n, rest)"
proof (cases "n = 0")
  case True
  then show ?thesis by (simp add: numberToString_zero parseInt_def)
next
  case False
  from numberToString_digits [of n] obtain c cs where eq: "numberToString n = c # cs"
    and digits: "\<forall>x\<in>set (c # cs). isDigit x" and v: "digitsValue (c # cs) = n"
    and h: "c = 0x30 \<longleftrightarrow> n = 0"
    by (cases "numberToString n") auto
  from digits have t: "takeWhile isDigit (cs @ rest) = cs" "dropWhile isDigit (cs @ rest) = rest"
    by (simp_all add: takeWhile_append2 dropWhile_append2 endsNumber_facts [OF assms])
  from False h have "c \<noteq> 0x30" by simp
  moreover from digits have "isDigit c" by simp
  ultimately show ?thesis by (simp add: eq parseInt_def t v)
qed

lemma parseNumber_numberToString:
  assumes "endsNumber rest"
  shows "parseNumber (numberToString n @ rest) = Some (of_nat n, rest)"
proof -
  from numberToString_digits [of n] obtain c cs where eq: "numberToString n = c # cs"
    and "isDigit c"
    by (cases "numberToString n") auto
  then have "c \<noteq> 0x2D" by (simp add: digit_facts)
  then have "parseNumber (numberToString n @ rest)
             = (case parseInt (numberToString n @ rest) of
                  None \<Rightarrow> None
                | Some (i, s2) \<Rightarrow>
                    (case parseFraction s2 of
                       None \<Rightarrow> None
                     | Some (f, s3) \<Rightarrow>
                         (case parseExponent s3 of
                            None \<Rightarrow> None
                          | Some (e, s4) \<Rightarrow> Some (1 * (of_nat i + f) * e, s4))))"
    by (simp add: parseNumber_def eq)
  then show ?thesis
    by (simp add: parseInt_numberToString [OF assms] endsNumber_facts [OF assms])
qed

lemma parseValue_string:
  "parseValue (Suc n) (quoteJSONString v @ rest) = Some (JString v, rest)"
  by (simp add: quoteJSONString_def parseChars_quoteChars)

lemma parseValue_number:
  assumes "endsNumber rest"
  shows "parseValue (Suc n) (numberToString k @ rest) = Some (JNumber (of_nat k), rest)"
proof -
  from numberToString_digits [of k] obtain c cs where eq: "numberToString k = c # cs"
    and d: "isDigit c"
    by (cases "numberToString k") auto
  from digit_facts [OF d]
  have "parseValue (Suc n) ((c # cs) @ rest)
        = map_option (\<lambda>(x, r). (JNumber x, r)) (parseNumber ((c # cs) @ rest))"
    by simp
  with parseNumber_numberToString [OF assms, of k] show ?thesis by (simp add: eq)
qed

lemma skipSpace_quote: "skipSpace (quoteJSONString k @ rest) = quoteJSONString k @ rest"
  by (simp add: skipSpace_def quoteJSONString_def isJsonSpace_def)

lemma skipSpace_number: "skipSpace (numberToString k @ rest) = numberToString k @ rest"
proof -
  from numberToString_digits [of k] obtain c cs where eq: "numberToString k = c # cs"
    and d: "isDigit c"
    by (cases "numberToString k") auto
  from digit_facts [OF d] show ?thesis by (simp add: skipSpace_def eq)
qed

text \<open>One member of the object followed by a comma and the next member.\<close>

lemma parseMembers_string_more:
  "parseMembers (Suc (Suc n)) (quoteJSONString k @ 0x3A # quoteJSONString v @ 0x2C # quoteJSONString k' @ rest) acc
   = parseMembers (Suc n) (quoteJSONString k' @ rest) (setProperty acc k (JString v))"
proof -
  have "parseMembers (Suc (Suc n)) (0x22 # quoteChars k @ 0x22 # 0x3A # quoteJSONString v @ 0x2C # quoteJSONString k' @ rest) acc
        = parseMembers (Suc n) (quoteJSONString k' @ rest) (setProperty acc k (JString v))"
    by (simp add: parseChars_quoteChars skipSpace_quote parseValue_string
          skipSpace_def [of "0x3A # _"] skipSpace_def [of "0x2C # _"] isJsonSpace_def
        del: parseValue.simps parseMembers.simps(1) )
  then show ?thesis by (simp add: quoteJSONString_def [of k])
qed

lemma parseMembers_number_more:
  "parseMembers (Suc (Suc n)) (quoteJSONString k @ 0x3A # numberToString v @ 0x2C # quoteJSONString k' @ rest) acc
   = parseMembers (Suc n) (quoteJSONString k' @ rest) (setProperty acc k (JNumber (of_nat v)))"
proof -
  have e: "endsNumber (0x2C # quoteJSONString k' @ rest)" by (simp add: endsNumber_def)
  have "parseMembers (Suc (Suc n)) (0x22 # quoteChars k @ 0x22 # 0x3A # numberToString v @ 0x2C # quoteJSONString k' @ rest) acc
        = parseMembers (Suc n) (quoteJSONString k' @ rest) (setProperty acc k (JNumber (of_nat v)))"
    by (simp add: parseChars_quoteChars skipSpace_quote skipSpace_number parseValue_number [OF e]
          skipSpace_def [of "0x3A # _"] skipSpace_def [of "0x2C # _"] isJsonSpace_def
        del: parseValue.simps parseMembers.simps(1))
  then show ?thesis by (simp add: quoteJSONString_def [of k])
qed

lemma parseMembers_string_last:
  "parseMembers (Suc (Suc n)) (quoteJSONString k @ 0x3A # quoteJSONString v @ [0x7D]) acc
   = Some (JObject (setProperty acc k (JString v)), [])"
proof -
  have "parseMembers (Suc (Suc n)) (0x22 # quoteChars k @ 0x22 # 0x3A # quoteJSONString v @ [0x7D]) acc
        = Some (JObject (setProperty acc k (JString v)), [])"
    by (simp add: parseChars_quoteChars skipSpace_quote parseValue_string
          skipSpace_def [of "0x3A # _"] skipSpace_def [of "[0x7D]"] isJsonSpace_def
        del: parseValue.simps parseMembers.simps(1))
  then show ?thesis by (simp add: quoteJSONString_def [of k])
qed


lemma parseValue_object:
  "parseValue (Suc n) (0x7B # quoteJSONString k @ rest) = parseMembers n (quoteJSONString k @ rest) []"
  by (simp add: quoteJSONString_def skipSpace_def isJsonSpace_def del: parseMembers.simps)

lemma stringifyMetadata_shape:
  "stringifyMetadata m =
     0x7B # quoteJSONString (js ''documentId'') @ 0x3A # quoteJSONString (mdDocumentId m) @ 0x2C #
     quoteJSONString (js ''userId'') @ 0x3A # quoteJSONString (mdUserId m) @ 0x2C #
     quoteJSONString (js ''fileName'') @ 0x3A # quoteJSONString (mdFileName m) @ 0x2C #
     quoteJSONString (js ''fileType'') @ 0x3A # quoteJSONString (mdFileType m) @ 0x2C #
     quoteJSONString (js ''chunkIndex'') @ 0x3A # numberToString (mdChunkIndex m) @ 0x2C #
     quoteJSONString (js ''totalChunks'') @ 0x3A # numberToString (mdTotalChunks m) @ 0x2C #
     quoteJSONString (js ''createdAt'') @ 0x3A # quoteJSONString (mdCreatedAt m) @ [0x7D]"
  by (simp add: stringifyMetadata_def)

lemma stringifyMetadata_length: "\<exists>n. length (stringifyMetadata m) = Suc (Suc (Suc (Suc (Suc (Suc (Suc (Suc n)))))))"
proof -
  have "8 \<le> length (stringifyMetadata m)"
    by (simp add: stringifyMetadata_def quoteJSONString_def)
  then obtain n where "length (stringifyMetadata m) = 8 + n" using le_Suc_ex by blast
  then have "length (stringifyMetadata m) = Suc (Suc (Suc (Suc (Suc (Suc (Suc (Suc n)))))))" by simp
  then show ?thesis by blast
qed

lemma metadata_properties:
  "setProperty (setProperty (setProperty (setProperty (setProperty (setProperty (setProperty []
     (js ''documentId'') a) (js ''userId'') b) (js ''fileName'') c) (js ''fileType'') d)
     (js ''chunkIndex'') i) (js ''totalChunks'') n) (js ''createdAt'') t
   = [(js ''documentId'', a), (js ''userId'', b), (js ''fileName'', c), (js ''fileType'', d),
      (js ''chunkIndex'', i), (js ''totalChunks'', n), (js ''createdAt'', t)]"
  by (simp add: js_def)

text \<open>\<open>JSON.parse(JSON.stringify(metadata))\<close> is the metadata object again.\<close>

lemma JSON_parse_stringifyMetadata: "JSON_parse (stringifyMetadata m) = Some (metadataJson m)"
proof -
  obtain n where len: "length (stringifyMetadata m) = Suc (Suc (Suc (Suc (Suc (Suc (Suc (Suc n)))))))"
    using stringifyMetadata_length by blast
  have sk: "skipSpace (stringifyMetadata m) = stringifyMetadata m"
    by (simp add: stringifyMetadata_shape skipSpace_def isJsonSpace_def)
  have pv: "parseValue (Suc (Suc (Suc (Suc (Suc (Suc (Suc (Suc (Suc n))))))))) (stringifyMetadata m)
        = Some (metadataJson m, [])"
    unfolding stringifyMetadata_shape parseValue_object
      parseMembers_string_more parseMembers_number_more parseMembers_string_last
      metadata_properties metadataJson_def ..
  show ?thesis unfolding JSON_parse_def sk len pv by (simp add: skipSpace_def)
qed

lemma stringifyMetadata_not_Nil: "stringifyMetadata m \<noteq> []"
  by (simp add: stringifyMetadata_def)

lemma parseHit_stored:
  assumes "fieldCategory hit = Some (stringifyMetadata m)"
  shows "parsedMetadata (parseHit hit) = metadataJson m"
    and "parsedCategory (parseHit hit) = stringifyMetadata m"
  using assms
  by (simp_all add: parseHit_def Let_def orElse_def stringifyMetadata_not_Nil
      JSON_parse_stringifyMetadata)

lemma queryVectors_hits:
  assumes "map_of (configuredIndexes e) ix = Some cfg"
    and "searchRecords e (indexName cfg) (indexUrl cfg) query = Inr hits"
  shows "fst (queryVectors e query ix s) = Inr (map parseHit hits)"
  using assms by (simp add: queryVectors_def Let_def)

lemma JSON_parse_empty: "JSON_parse [] = None"
  by (simp add: JSON_parse_def skipSpace_def)

text \<open>
  C5, as the code has it. For every item of the array that \<open>processDocument\<close> upserts, the
  category field is \<open>JSON.stringify\<close> of the metadata of its chunk, \<open>JSON.parse\<close> of it is that
  metadata again (documentId, userId, fileName, fileType, chunkIndex, totalChunks,
  createdAt), and \<open>queryVectors\<close> puts this value into the metadata of a hit that carries
  the field. The value that \<open>queryVectors\<close> parses is the category if it is a non-empty
  string, else the text if it is a non-empty string, else the empty string. When this value
  is JSON, the metadata is the parsed value; when it is not, the metadata is the object with
  the one property \<open>documentId\<close> set to it. So a non-empty category decides alone: parsed, or
  synthesized from the category. A hit whose category is empty or missing gets its metadata
  from the text: the parsed text when the text is JSON, the object synthesized from the text
  when it is not, and the object synthesized from the empty string when there is no text
  either. Parsing never makes the query fail: whatever the hits are, \<open>queryVectors\<close> returns
  all of them.
\<close>

theorem metadata_round_trip:
  "(item \<in> set (pipelineData e did d parsed) \<longrightarrow>
      (\<exists>i. i < length (pipelineChunks e parsed)
         \<and> itemId item = chunkPineconeId did i
         \<and> itemCategory item = stringifyMetadata (chunkMetadata e d i (length (pipelineChunks e parsed)))
         \<and> JSON_parse (itemCategory item)
             = Some (JObject
                       [(js ''documentId'', JString (docId d)),
                        (js ''userId'', JString (userId d)),
                        (js ''fileName'', JString (docName d)),
                        (js ''fileType'', JString (docType d)),
                        (js ''chunkIndex'', JNumber (of_nat i)),
                        (js ''totalChunks'', JNumber (of_nat (length (pipelineChunks e parsed)))),
                        (js ''createdAt'', JString (toISOString e i))])
         \<and> (fieldCategory hit = Some (itemCategory item) \<longrightarrow>
              parsedMetadata (parseHit hit)
                = metadataJson (chunkMetadata e d i (length (pipelineChunks e parsed)))
              \<and> parsedCategory (parseHit hit) = itemCategory item)))
   \<and> (JSON_parse (orElse (fieldCategory hit) (orElse (fieldText hit) [])) = None \<longrightarrow>
        parsedMetadata (parseHit hit)
          = JObject [(js ''documentId'',
                      JString (orElse (fieldCategory hit) (orElse (fieldText hit) [])))])
   \<and> (fieldCategory hit = Some c \<and> c \<noteq> [] \<and> JSON_parse c = None \<longrightarrow>
        parsedMetadata (parseHit hit) = JObject [(js ''documentId'', JString c)])
   \<and> (fieldCategory hit = Some c \<and> c \<noteq> [] \<and> JSON_parse c = Some v \<longrightarrow>
        parsedMetadata (parseHit hit) = v)
   \<and> ((fieldCategory hit = None \<or> fieldCategory hit = Some [])
        \<and> fieldText hit = Some t \<and> t \<noteq> [] \<and> JSON_parse t = Some v \<longrightarrow>
        parsedMetadata (parseHit hit) = v)
   \<and> ((fieldCategory hit = None \<or> fieldCategory hit = Some [])
        \<and> fieldText hit = Some t \<and> t \<noteq> [] \<and> JSON_parse t = None \<longrightarrow>
        parsedMetadata (parseHit hit) = JObject [(js ''documentId'', JString t)])
   \<and> ((fieldCategory hit = None \<or> fieldCategory hit = Some [])
        \<and> (fieldText hit = None \<or> fieldText hit = Some []) \<longrightarrow>
        parsedMetadata (parseHit hit) = JObject [(js ''documentId'', JString [])])
   \<and> (map_of (configuredIndexes e) ix = Some cfg
        \<and> searchRecords e (indexName cfg) (indexUrl cfg) query = Inr hits \<longrightarrow>
        fst (queryVectors e query ix s) = Inr (map parseHit hits))"
proof (intro conjI impI)
  assume "item \<in> set (pipelineData e did d parsed)"
  then obtain i where i: "i < length (pipelineChunks e parsed)"
    and item: "item = \<lparr>itemId = chunkPineconeId did i,
                       itemText = pipelineChunks e parsed ! i,
                       itemCategory = stringifyMetadata
                         (chunkMetadata e d i (length (pipelineChunks e parsed)))\<rparr>"
    by (auto simp: pipelineData_def vectorData_def)
  let ?m = "chunkMetadata e d i (length (pipelineChunks e parsed))"
  have hit: "fieldCategory hit = Some (itemCategory item) \<longrightarrow>
               parsedMetadata (parseHit hit) = metadataJson ?m
               \<and> parsedCategory (parseHit hit) = itemCategory item"
    by (simp add: item parseHit_stored)
  have "JSON_parse (itemCategory item)
        = Some (JObject
                  [(js ''documentId'', JString (docId d)),
                   (js ''userId'', JString (userId d)),
                   (js ''fileName'', JString (docName d)),
                   (js ''fileType'', JString (docType d)),
                   (js ''chunkIndex'', JNumber (of_nat i)),
                   (js ''totalChunks'', JNumber (of_nat (length (pipelineChunks e parsed)))),
                   (js ''createdAt'', JString (toISOString e i))])"
    by (simp add: item JSON_parse_stringifyMetadata metadataJson_def chunkMetadata_def)
  with i item hit
  show "\<exists>i. i < length (pipelineChunks e parsed)
         \<and> itemId item = chunkPineconeId did i
         \<and> itemCategory item = stringifyMetadata (chunkMetadata e d i (length (pipelineChunks e parsed)))
         \<and> JSON_parse (itemCategory item)
             = Some (JObject
                       [(js ''documentId'', JString (docId d)),
                        (js ''userId'', JString (userId d)),
                        (js ''fileName'', JString (docName d)),
                        (js ''fileType'', JString (docType d)),
                        (js ''chunkIndex'', JNumber (of_nat i)),
                        (js ''totalChunks'', JNumber (of_nat (length (pipelineChunks e parsed)))),
                        (js ''createdAt'', JString (toISOString e i))])
         \<and> (fieldCategory hit = Some (itemCategory item) \<longrightarrow>
              parsedMetadata (parseHit hit)
                = metadataJson (chunkMetadata e d i (length (pipelineChunks e parsed)))
              \<and> parsedCategory (parseHit hit) = itemCategory item)"
    by (intro exI [of _ i]) simp
next
  assume "JSON_parse (orElse (fieldCategory hit) (orElse (fieldText hit) [])) = None"
  then show "parsedMetadata (parseHit hit)
          = JObject [(js ''documentId'',
                      JString (orElse (fieldCategory hit) (orElse (fieldText hit) [])))]"
    by (simp add: parseHit_def Let_def)
next
  assume "fieldCategory hit = Some c \<and> c \<noteq> [] \<and> JSON_parse c = None"
  then show "parsedMetadata (parseHit hit) = JObject [(js ''documentId'', JString c)]"
    by (simp add: parseHit_def Let_def orElse_def)
next
  assume "fieldCategory hit = Some c \<and> c \<noteq> [] \<and> JSON_parse c = Some v"
  then show "parsedMetadata (parseHit hit) = v"
    by (simp add: parseHit_def Let_def orElse_def)
next
  assume "(fieldCategory hit = None \<or> fieldCategory hit = Some [])
        \<and> fieldText hit = Some t \<and> t \<noteq> [] \<and> JSON_parse t = Some v"
  then show "parsedMetadata (parseHit hit) = v"
    by (auto simp: parseHit_def Let_def orElse_def)
next
  assume "(fieldCategory hit = None \<or> fieldCategory hit = Some [])
        \<and> fieldText hit = Some t \<and> t \<noteq> [] \<and> JSON_parse t = None"
  then show "parsedMetadata (parseHit hit) = JObject [(js ''documentId'', JString t)]"
    by (auto simp: parseHit_def Let_def orElse_def)
next
  assume "(fieldCategory hit = None \<or> fieldCategory hit = Some [])
        \<and> (fieldText hit = None \<or> fieldText hit = Some [])"
  then show "parsedMetadata (parseHit hit) = JObject [(js ''documentId'', JString [])]"
    by (auto simp: parseHit_def Let_def orElse_def JSON_parse_empty)
next
  assume "map_of (configuredIndexes e) ix = Some cfg
        \<and> searchRecords e (indexName cfg) (indexUrl cfg) query = Inr hits"
  then show "fst (queryVectors e query ix s) = Inr (map parseHit hits)"
    by (simp add: queryVectors_hits)
qed


lemmas json_eval = JSON_parse_def skipSpace_def isJsonSpace_def parseNumber_def parseInt_def
  parseFraction_def parseExponent_def isDigit_def digitsValue_def digitValue_def js_def

theorem metadata_round_trip_counterexample:
  "fieldCategory \<lparr>hitId = js ''h1'', hitScore = 1, fieldCategory = Some [], fieldText = Some (js ''42'')\<rparr>
     = Some []
   \<and> JSON_parse [] = None
   \<and> parsedMetadata
        (parseHit \<lparr>hitId = js ''h1'', hitScore = 1, fieldCategory = Some [], fieldText = Some (js ''42'')\<rparr>)
       = JNumber 42
   \<and> parsedMetadata
        (parseHit \<lparr>hitId = js ''h1'', hitScore = 1, fieldCategory = Some [], fieldText = Some (js ''42'')\<rparr>)
       \<noteq> JObject [(js ''documentId'', JString [])]"
  by (simp add: parseHit_def orElse_def Let_def json_eval)

theorem metadata_round_trip_witness:
  "parsedMetadata
     (parseHit \<lparr>hitId = js ''id0_chunk_0'', hitScore = 1,
                fieldCategory = Some (stringifyMetadata (chunkMetadata geminiEnv exampleDocument 0 1)),
                fieldText = Some (js ''Hello world.'')\<rparr>)
     = JObject
         [(js ''documentId'', JString (js ''id0'')),
          (js ''userId'', JString (js ''u1'')),
          (js ''fileName'', JString (js ''a.txt'')),
          (js ''fileType'', JString (js ''text/plain'')),
          (js ''chunkIndex'', JNumber 0),
          (js ''totalChunks'', JNumber 1),
          (js ''createdAt'', JString (js ''2025-01-01T00:00:00.000Z''))]
   \<and> parsedMetadata
       (parseHit \<lparr>hitId = js ''h2'', hitScore = 1,
                  fieldCategory = Some (js ''legacy-doc-7''), fieldText = None\<rparr>)
     = JObject [(js ''documentId'', JString (js ''legacy-doc-7''))]
   \<and> parsedMetadata
       (parseHit \<lparr>hitId = js ''h1'', hitScore = 1, fieldCategory = Some [], fieldText = Some (js ''42'')\<rparr>)
     = JNumber 42
   \<and> parsedMetadata
       (parseHit \<lparr>hitId = js ''h3'', hitScore = 1, fieldCategory = None,
                  fieldText = Some (js ''plain text'')\<rparr>)
     = JObject [(js ''documentId'', JString (js ''plain text''))]
   \<and> parsedMetadata
       (parseHit \<lparr>hitId = js ''h4'', hitScore = 1, fieldCategory = None, fieldText = None\<rparr>)
     = JObject [(js ''documentId'', JString [])]
   \<and> fst (queryVectors
            (exampleEnv\<lparr>searchRecords := (\<lambda>n u t.
               Inr [\<lparr>hitId = js ''h2'', hitScore = 1,
                     fieldCategory = Some (js ''legacy-doc-7''), fieldText = None\<rparr>])\<rparr>)
            (js ''question'') (js ''air'') emptyState)
     = Inr [parseHit \<lparr>hitId = js ''h2'', hitScore = 1,
                      fieldCategory = Some (js ''legacy-doc-7''), fieldText = None\<rparr>]"
proof -
  let ?m = "chunkMetadata geminiEnv exampleDocument 0 1"
  let ?item = "\<lparr>itemId = chunkPineconeId (js ''id0'') 0, itemText = js ''Hello world.'',
                itemCategory = stringifyMetadata ?m\<rparr>"
  let ?stored = "\<lparr>hitId = js ''id0_chunk_0'', hitScore = 1,
                  fieldCategory = Some (stringifyMetadata ?m),
                  fieldText = Some (js ''Hello world.'')\<rparr>"
  let ?legacy = "\<lparr>hitId = js ''h2'', hitScore = 1,
                  fieldCategory = Some (js ''legacy-doc-7''), fieldText = None\<rparr>"
  let ?env = "exampleEnv\<lparr>searchRecords := (\<lambda>n u t. Inr [?legacy])\<rparr>"
  let ?cfg = "\<lparr>indexName = js ''air'', indexUrl = js ''https://air.example''\<rparr>"
  note stored = metadata_round_trip
    [where item = ?item and e = geminiEnv and did = "js ''id0''" and d = exampleDocument
       and parsed = "js ''Hello world.''" and hit = ?stored, THEN conjunct1]
  let ?number = "\<lparr>hitId = js ''h1'', hitScore = 1, fieldCategory = Some [],
                  fieldText = Some (js ''42'')\<rparr>"
  let ?plain = "\<lparr>hitId = js ''h3'', hitScore = 1, fieldCategory = None,
                 fieldText = Some (js ''plain text'')\<rparr>"
  let ?bare = "\<lparr>hitId = js ''h4'', hitScore = 1, fieldCategory = None, fieldText = None\<rparr>"
  note legacy = metadata_round_trip
    [where hit = ?legacy and c = "js ''legacy-doc-7''", THEN conjunct2, THEN conjunct2, THEN conjunct1]
  note number = metadata_round_trip
    [where hit = ?number and t = "js ''42''" and v = "JNumber 42",
     THEN conjunct2, THEN conjunct2, THEN conjunct2, THEN conjunct2, THEN conjunct1]
  note plain = metadata_round_trip
    [where hit = ?plain and t = "js ''plain text''",
     THEN conjunct2, THEN conjunct2, THEN conjunct2, THEN conjunct2, THEN conjunct2, THEN conjunct1]
  note bare = metadata_round_trip
    [where hit = ?bare,
     THEN conjunct2, THEN conjunct2, THEN conjunct2, THEN conjunct2, THEN conjunct2, THEN conjunct2,
     THEN conjunct1]
  note query = metadata_round_trip
    [where e = ?env and ix = "js ''air''" and cfg = ?cfg and query = "js ''question''"
       and hits = "[?legacy]" and s = emptyState,
     THEN conjunct2, THEN conjunct2, THEN conjunct2, THEN conjunct2, THEN conjunct2, THEN conjunct2,
     THEN conjunct2]
  have clean: "cleanTextLineBreaks (js ''Hello world.'') = js ''Hello world.''"
    by (simp add: cleanTextLineBreaks_def js_def LF_def)
  have mem: "?item \<in> set (pipelineData geminiEnv (js ''id0'') exampleDocument (js ''Hello world.''))"
    by (simp add: pipelineData_def vectorData_def pipelineChunks_geminiEnv clean)
  have len: "length (pipelineChunks geminiEnv (js ''Hello world.'')) = 1"
    by (simp add: pipelineChunks_geminiEnv)
  from stored mem len
  have "parsedMetadata (parseHit ?stored) = metadataJson ?m" by auto
  moreover have "metadataJson ?m
     = JObject
         [(js ''documentId'', JString (js ''id0'')),
          (js ''userId'', JString (js ''u1'')),
          (js ''fileName'', JString (js ''a.txt'')),
          (js ''fileType'', JString (js ''text/plain'')),
          (js ''chunkIndex'', JNumber 0),
          (js ''totalChunks'', JNumber 1),
          (js ''createdAt'', JString (js ''2025-01-01T00:00:00.000Z''))]"
    by (simp add: metadataJson_def chunkMetadata_def exampleDocument_def geminiEnv_def exampleEnv_def)
  ultimately have a: "parsedMetadata (parseHit ?stored)
     = JObject
         [(js ''documentId'', JString (js ''id0'')),
          (js ''userId'', JString (js ''u1'')),
          (js ''fileName'', JString (js ''a.txt'')),
          (js ''fileType'', JString (js ''text/plain'')),
          (js ''chunkIndex'', JNumber 0),
          (js ''totalChunks'', JNumber 1),
          (js ''createdAt'', JString (js ''2025-01-01T00:00:00.000Z''))]"
    by simp
  have "JSON_parse (js ''legacy-doc-7'') = None" by (simp add: json_eval)
  moreover have "js ''legacy-doc-7'' \<noteq> []" by (simp add: js_def)
  ultimately have b: "parsedMetadata (parseHit ?legacy)
      = JObject [(js ''documentId'', JString (js ''legacy-doc-7''))]"
    using legacy by simp
  have "configuredIndexes ?env = configuredIndexes exampleEnv"
    by (simp add: configuredIndexes_def)
  then have "map_of (configuredIndexes ?env) (js ''air'') = Some ?cfg"
    by (simp add: configuredIndexes_exampleEnv js_def)
  with query have c: "fst (queryVectors ?env (js ''question'') (js ''air'') emptyState)
      = Inr [parseHit ?legacy]"
    by simp
  have "JSON_parse (js ''42'') = Some (JNumber 42)" by (simp add: json_eval)
  moreover have "js ''42'' \<noteq> []" by (simp add: js_def)
  ultimately have n: "parsedMetadata (parseHit ?number) = JNumber 42"
    using number by simp
  have "JSON_parse (js ''plain text'') = None" by (simp add: json_eval)
  moreover have "js ''plain text'' \<noteq> []" by (simp add: js_def)
  ultimately have p: "parsedMetadata (parseHit ?plain)
      = JObject [(js ''documentId'', JString (js ''plain text''))]"
    using plain by simp
  from bare have e: "parsedMetadata (parseHit ?bare) = JObject [(js ''documentId'', JString [])]"
    by simp
  from a b n p e c show ?thesis by simp
qed

end
